theory Spec2Isabelle
  imports Complex_Main "HOL-Library.Signed_Division" "HOL-Library.Sublist" "HOL-Library.Word"
begin

section \<open>Time\<close>

text \<open>
  Go's \<^verbatim>\<open>time.Time\<close> is modelled as an instant on an integer timeline, counted in
  nanoseconds from the zero \<^verbatim>\<open>time.Time\<close>, and \<^verbatim>\<open>time.Duration\<close> as a number of
  nanoseconds. \<^verbatim>\<open>Time.Sub\<close> returns a Duration, a 64-bit integer, and saturates at the
  smallest and the largest Duration where the difference does not fit. Every reading of
  \<^verbatim>\<open>time.Now()\<close> is an argument of the function that reads it. In the limiter Go's
  \<^verbatim>\<open>int\<close> is the 64-bit word it is on a 64-bit platform, with wrap-around; in the store
  the lengths and counters are modelled as \<open>int\<close> and taken to stay inside 64 bits.
\<close>

type_synonym Time = int
type_synonym Duration = int

definition minDuration :: Duration where
  "minDuration = - (2 ^ 63)"

definition maxDuration :: Duration where
  "maxDuration = 2 ^ 63 - 1"

definition Sub :: "Time \<Rightarrow> Time \<Rightarrow> Duration" where
  "Sub t u =
     (if t - u < minDuration then minDuration
      else if maxDuration < t - u then maxDuration
      else t - u)"

section \<open>float64\<close>

text \<open>
  A finite \<^verbatim>\<open>float64\<close> is modelled as the real number it stands for. Every operation
  of IEEE 754 binary64 returns the exact result rounded to 53 significant bits, to the
  nearest and to the even significand on a tie: \<open>roundFloat64\<close> scales its argument by
  a power of two to a significand in \<open>[2^52, 2^53)\<close>, rounds that to an integer and scales
  back. The exponent is not bounded in the model. Where the limiter computes, with 64-bit
  operands and a positive divisor, every nonzero result has a magnitude between
  \<open>10^-20\<close> and \<open>10^38\<close>, far from the subnormal numbers and from overflow, and no NaN
  or infinity arises. The sign of a zero is not modelled: the limiter only compares the
  values and converts them to integers.
\<close>

text \<open>Rounding to the nearest integer, to the even one on a tie.\<close>

definition roundHalfEven :: "real \<Rightarrow> int" where
  "roundHalfEven x =
     (let n = \<lfloor>x\<rfloor>; r = x - of_int n
      in if r < 1 / 2 then n else if 1 / 2 < r then n + 1 else if even n then n else n + 1)"

text \<open>For \<open>q > 0\<close>, the exponent \<open>e\<close> with \<open>2^e \<le> q < 2^(e+1)\<close>.\<close>

function log2floor :: "real \<Rightarrow> int" where
  "log2floor q =
     (if q \<le> 0 then 0
      else if 2 \<le> q then log2floor (q / 2) + 1
      else if q < 1 then log2floor (q * 2) - 1
      else 0)"
  by pat_completeness auto
termination
proof (relation "measure (\<lambda>q. if 1 \<le> q then nat \<lfloor>q\<rfloor> else nat \<lfloor>1 / q\<rfloor> + 1)")
  show "wf (measure (\<lambda>q::real. if 1 \<le> q then nat \<lfloor>q\<rfloor> else nat \<lfloor>1 / q\<rfloor> + 1))" by simp
next
  fix q :: real assume "\<not> q \<le> 0" and q: "2 \<le> q"
  then have "\<lfloor>q / 2\<rfloor> < \<lfloor>q\<rfloor>" by linarith
  moreover from q have "0 \<le> \<lfloor>q / 2\<rfloor>" by simp
  ultimately show "(q / 2, q) \<in> measure (\<lambda>q. if 1 \<le> q then nat \<lfloor>q\<rfloor> else nat \<lfloor>1 / q\<rfloor> + 1)"
    using q by simp
next
  fix q :: real assume pos: "\<not> q \<le> 0" and "\<not> 2 \<le> q" and q: "q < 1"
  from pos q have inv: "1 < 1 / q" by (simp add: field_simps)
  then have one: "1 \<le> \<lfloor>1 / q\<rfloor>" by linarith
  show "(q * 2, q) \<in> measure (\<lambda>q. if 1 \<le> q then nat \<lfloor>q\<rfloor> else nat \<lfloor>1 / q\<rfloor> + 1)"
  proof (cases "1 \<le> q * 2")
    case True
    with q have "\<lfloor>q * 2\<rfloor> = 1" by linarith
    with True q one show ?thesis by simp
  next
    case False
    have e: "1 / (q * 2) = (1 / q) / 2" by simp
    have a: "\<lfloor>(1 / q) / 2\<rfloor> < \<lfloor>1 / q\<rfloor>"
    proof -
      define y where "y = 1 / q"
      have "y < of_int \<lfloor>y\<rfloor> + 1" by linarith
      moreover from one have "(1::real) \<le> of_int \<lfloor>y\<rfloor>" by (simp add: y_def)
      ultimately have "y / 2 < of_int \<lfloor>y\<rfloor>" by linarith
      then show ?thesis by (simp only: floor_less_iff y_def)
    qed
    from pos have b: "0 \<le> \<lfloor>(1 / q) / 2\<rfloor>" by simp
    from a b have "nat \<lfloor>(1 / q) / 2\<rfloor> < nat \<lfloor>1 / q\<rfloor>" by linarith
    then have "nat \<lfloor>1 / (q * 2)\<rfloor> < nat \<lfloor>1 / q\<rfloor>" by (simp only: e)
    moreover from q have "\<not> 1 \<le> q" by simp
    ultimately show ?thesis using False by (simp del: zless_nat_conj)
  qed
qed


definition roundFloat64 :: "real \<Rightarrow> real" where
  "roundFloat64 q =
     (if q = 0 then 0
      else (let e = log2floor \<bar>q\<bar>;
                s = (if e \<le> 52 then 2 ^ nat (52 - e) else 1 / 2 ^ nat (e - 52))
            in of_int (roundHalfEven (q * s)) / s))"


text \<open>The conversion \<^verbatim>\<open>float64(i)\<close> of an integer and the three operations the limiter
  uses.\<close>

definition float64_of_int :: "int \<Rightarrow> real" where
  "float64_of_int i = roundFloat64 (of_int i)"

definition fadd :: "real \<Rightarrow> real \<Rightarrow> real" where
  "fadd x y = roundFloat64 (x + y)"

definition fmul :: "real \<Rightarrow> real \<Rightarrow> real" where
  "fmul x y = roundFloat64 (x * y)"

definition fdiv :: "real \<Rightarrow> real \<Rightarrow> real" where
  "fdiv x y = roundFloat64 (x / y)"

text \<open>
  The conversion \<^verbatim>\<open>int(x)\<close> truncates towards zero. Where the truncated value does not
  fit into 64 bits the Go specification leaves the result to the implementation; the
  model takes the smallest integer, which is what the amd64 instruction returns.
\<close>

definition int_of_float64 :: "real \<Rightarrow> 64 word" where
  "int_of_float64 x =
     (let n = (if 0 \<le> x then \<lfloor>x\<rfloor> else \<lceil>x\<rceil>)
      in if - (2 ^ 63) \<le> n \<and> n < 2 ^ 63 then word_of_int n else word_of_int (- (2 ^ 63)))"

text \<open>
  \<^verbatim>\<open>Duration.Seconds\<close> of package time:
  \<^verbatim>\<open>sec := d / Second; nsec := d % Second; return float64(sec) + float64(nsec)/1e9\<close>,
  with Go's integer division, which truncates towards zero.
\<close>

definition Seconds :: "Duration \<Rightarrow> real" where
  "Seconds d =
     fadd (float64_of_int (d sdiv 1000000000))
       (fdiv (float64_of_int (d smod 1000000000)) 1000000000)"

section \<open>The admission limiter (package ratelimit)\<close>

record Visitor =
  tokens :: "64 word"
  lastSeen :: Time
  windowStart :: Time
  requestCount :: "64 word"

record RateLimiter =
  visitors :: "string \<rightharpoonup> Visitor"
  rate :: "64 word"
  burst :: "64 word"
  window :: Duration

definition NewRateLimiter :: "64 word \<Rightarrow> 64 word \<Rightarrow> Duration \<Rightarrow> RateLimiter" where
  "NewRateLimiter r b w = \<lparr>visitors = Map.empty, rate = r, burst = b, window = w\<rparr>"

text \<open>The limiter's own \<^verbatim>\<open>min\<close>, on signed 64-bit integers.\<close>

definition min_go :: "64 word \<Rightarrow> 64 word \<Rightarrow> 64 word" where
  "min_go a b = (if a <s b then a else b)"

text \<open>
  The refill: \<^verbatim>\<open>int(elapsed.Seconds() * float64(rl.burst) / windowSeconds)\<close> where
  \<^verbatim>\<open>windowSeconds > 0\<close>, the product and the quotient each rounded to a float64, and the
  whole burst otherwise.
\<close>

definition tokensToAdd :: "64 word \<Rightarrow> Duration \<Rightarrow> Duration \<Rightarrow> 64 word" where
  "tokensToAdd b w elapsed =
     (let windowSeconds = Seconds w
      in if 0 < windowSeconds then
           int_of_float64 (fdiv (fmul (Seconds elapsed) (float64_of_int (sint b))) windowSeconds)
         else b)"

definition setVisitor :: "string \<Rightarrow> Visitor \<Rightarrow> RateLimiter \<Rightarrow> RateLimiter" where
  "setVisitor ip v rl = rl\<lparr>visitors := (visitors rl)(ip \<mapsto> v)\<rparr>"

text \<open>
  \<^verbatim>\<open>Allow\<close> returns its verdict and the limiter after the call: the visitor is a
  pointer in the source, so each of its field updates is an update of the map. The sums
  and differences are those of 64-bit integers and wrap around; the comparisons are
  signed.
\<close>

definition Allow :: "Time \<Rightarrow> string \<Rightarrow> RateLimiter \<Rightarrow> bool \<times> RateLimiter" where
  "Allow now ip rl =
     (case visitors rl ip of
        None \<Rightarrow>
          (True, setVisitor ip
             \<lparr>tokens = burst rl - 1, lastSeen = now, windowStart = now, requestCount = 1\<rparr> rl)
      | Some v0 \<Rightarrow>
          (let v1 = v0\<lparr>lastSeen := now\<rparr> in
           if window rl < Sub now (windowStart v1) then
             (True, setVisitor ip
                (v1\<lparr>windowStart := now, requestCount := 1, tokens := burst rl - 1\<rparr>) rl)
           else if rate rl <=s requestCount v1 then (False, setVisitor ip v1 rl)
           else
             (let elapsed = Sub now (windowStart v1);
                  v2 = v1\<lparr>tokens :=
                         min_go (tokens v1 + tokensToAdd (burst rl) (window rl) elapsed)
                           (burst rl)\<rparr>
              in if 0 <s tokens v2 then
                   (True, setVisitor ip
                      (v2\<lparr>tokens := tokens v2 - 1, requestCount := requestCount v2 + 1\<rparr>) rl)
                 else (False, setVisitor ip v2 rl))))"

text \<open>
  A key issuing several calls: the verdicts of \<^verbatim>\<open>Allow\<close> at the given readings of
  the clock, in order, and the limiter after the last call.
\<close>

fun AllowAll :: "Time list \<Rightarrow> string \<Rightarrow> RateLimiter \<Rightarrow> bool list \<times> RateLimiter" where
  "AllowAll [] ip rl = ([], rl)"
| "AllowAll (t # ts) ip rl =
     (let (ok, rl1) = Allow t ip rl;
          (oks, rl2) = AllowAll ts ip rl1
      in (ok # oks, rl2))"

section \<open>The data model (package models)\<close>

record FetchResult =
  URL :: string
  Status :: string
  Content :: string
  ContentLength :: int
  StatusCode :: int
  Error :: string
  FetchedAt :: Time
  CreatedAt :: Time
  Duration :: string
  RedirectCount :: int
  FinalURL :: string

record FetchResponse =
  TotalURLs :: int
  SuccessCount :: int
  FailedCount :: int
  PendingCount :: int
  Results :: "FetchResult list"
  LastSubmission :: Time

record CleanupStats =
  LastCleanup :: Time
  TotalCleaned :: int
  CleanupCount :: int
  ResultsInMemory :: int

text \<open>The zero value of a \<^verbatim>\<open>FetchResult\<close>: a composite literal leaves the fields it does
  not name at their zero values.\<close>

definition zeroResult :: FetchResult where
  "zeroResult =
     \<lparr>URL = [], Status = [], Content = [], ContentLength = 0, StatusCode = 0, Error = [],
      FetchedAt = 0, CreatedAt = 0, Duration = [], RedirectCount = 0, FinalURL = []\<rparr>"

definition zeroStats :: CleanupStats where
  "zeroStats = \<lparr>LastCleanup = 0, TotalCleaned = 0, CleanupCount = 0, ResultsInMemory = 0\<rparr>"

section \<open>The result store (package service)\<close>

record Config =
  FetchTimeout :: Duration
  MaxRedirects :: int
  MaxContentSize :: int
  ResultTTL :: Duration
  CleanupInterval :: Duration
  MaxResultsInMemory :: int

record FetchService =
  results :: "FetchResult list"
  lastSubmission :: Time
  rateLimiter :: RateLimiter
  cleanupStats :: CleanupStats
  config :: Config

text \<open>A run-time panic of the Go program is a value: an index out of range
  (\<^verbatim>\<open>fs.results[index]\<close>) or slice bounds out of range (\<^verbatim>\<open>newResults[excess:]\<close>).\<close>

datatype panic = IndexOutOfRange | SliceBoundsOutOfRange

definition NewFetchService :: "Config \<Rightarrow> RateLimiter \<Rightarrow> FetchService" where
  "NewFetchService cfg rl =
     \<lparr>results = [], lastSubmission = 0, rateLimiter = rl, cleanupStats = zeroStats,
      config = cfg\<rparr>"

subsection \<open>SubmitURLs\<close>

definition pendingResult :: "Time \<Rightarrow> string \<Rightarrow> FetchResult" where
  "pendingResult now url = zeroResult\<lparr>URL := url, Status := ''pending'', CreatedAt := now\<rparr>"

text \<open>The loop that appends one pending entry for each URL.\<close>

fun appendPending :: "Time \<Rightarrow> string list \<Rightarrow> FetchResult list \<Rightarrow> FetchResult list" where
  "appendPending now [] rs = rs"
| "appendPending now (url # urls) rs = appendPending now urls (rs @ [pendingResult now url])"

text \<open>
  \<^verbatim>\<open>SubmitURLs\<close> reads the clock twice, for \<^verbatim>\<open>lastSubmission\<close> and for the entries'
  \<^verbatim>\<open>CreatedAt\<close>, appends the pending entries under the lock and returns the store.
\<close>

definition SubmitURLs :: "Time \<Rightarrow> Time \<Rightarrow> string list \<Rightarrow> FetchService \<Rightarrow> FetchService" where
  "SubmitURLs t0 now urls fs =
     fs\<lparr>lastSubmission := t0, results := appendPending now urls (results fs)\<rparr>"

text \<open>
  After the lock is released \<^verbatim>\<open>SubmitURLs\<close> starts one fetch task for each URL. The
  argument of task \<open>i\<close>, \<^verbatim>\<open>len(fs.results) - len(urls) + i\<close>, is evaluated when the task
  is started, on the store as it is at that moment: \<open>fs\<close> below is that store, which is
  the store \<^verbatim>\<open>SubmitURLs\<close> returned only if no other operation has run in between. The
  task itself is a later call of \<open>fetchURL\<close> with this argument.
\<close>

definition taskIndex :: "FetchService \<Rightarrow> string list \<Rightarrow> nat \<Rightarrow> int" where
  "taskIndex fs urls i = int (length (results fs)) - int (length urls) + int i"

subsection \<open>updateResult\<close>

definition updateResult :: "int \<Rightarrow> FetchResult \<Rightarrow> FetchService \<Rightarrow> FetchService" where
  "updateResult index result fs =
     (if 0 \<le> index \<and> index < int (length (results fs)) then
        fs\<lparr>results :=
             (results fs)[nat index :=
                result\<lparr>CreatedAt := CreatedAt (results fs ! nat index)\<rparr>]\<rparr>
      else fs)"

subsection \<open>fetchURL\<close>

text \<open>
  What the network did for one fetch, as the source observes it:
  \<^item> \<open>RequestError msg\<close>: \<^verbatim>\<open>http.NewRequestWithContext\<close> returned the error \<open>msg\<close>;
  \<^item> \<open>DoError msg deadline n\<close>: \<^verbatim>\<open>Do\<close> returned the error \<open>msg\<close>, \<open>deadline\<close> tells
    whether the context's error is \<^verbatim>\<open>DeadlineExceeded\<close>, and \<open>n\<close> is the value the
    redirect hook left in \<^verbatim>\<open>redirectCount\<close>;
  \<^item> \<open>DoResponse code final n body err\<close>: \<^verbatim>\<open>Do\<close> returned a response with status
    \<open>code\<close> whose request URL is \<open>final\<close>, after \<open>n\<close> redirects, and
    \<^verbatim>\<open>io.ReadAll\<close> over the limited reader returned the bytes \<open>body\<close> and the error
    \<open>err\<close> (\<open>None\<close> for \<^verbatim>\<open>nil\<close>).
  \<open>elapsed\<close> is the text of \<^verbatim>\<open>time.Since(startTime)\<close> where the outcome is written and
  \<open>finished\<close> the reading of the clock for \<^verbatim>\<open>FetchedAt\<close>.
\<close>

datatype transport =
    RequestError string
  | DoError string bool int
  | DoResponse int string int string "string option"

record FetchEnv =
  transport :: transport
  elapsed :: string
  finished :: Time

text \<open>The decimal text of an integer, as \<^verbatim>\<open>%d\<close> prints it.\<close>

fun digits :: "nat \<Rightarrow> string" where
  "digits n =
     (if n < 10 then [''0123456789'' ! n]
      else digits (n div 10) @ [''0123456789'' ! (n mod 10)])"

definition showInt :: "int \<Rightarrow> string" where
  "showInt i = (if i < 0 then CHR ''-'' # digits (nat (- i)) else digits (nat i))"

definition fetchURL :: "FetchEnv \<Rightarrow> int \<Rightarrow> FetchService \<Rightarrow> panic + FetchService" where
  "fetchURL env index fs =
     (if index < 0 \<or> int (length (results fs)) \<le> index then Inl IndexOutOfRange
      else
        (let url = URL (results fs ! nat index) in
         if url = [] then
           Inr (updateResult index
                  (zeroResult\<lparr>URL := url, Status := ''failed'', Error := ''URL is empty'',
                     Duration := elapsed env\<rparr>) fs)
         else
           (case transport env of
              RequestError msg \<Rightarrow>
                Inr (updateResult index
                       (zeroResult\<lparr>URL := url, Status := ''failed'',
                          Error := ''Failed to create request: '' @ msg,
                          Duration := elapsed env\<rparr>) fs)
            | DoError msg deadline redirectCount \<Rightarrow>
                (let errMsg = (if deadline then ''Request timeout exceeded''
                               else ''Failed to fetch URL: '' @ msg)
                 in Inr (updateResult index
                           (zeroResult\<lparr>URL := url, Status := ''failed'', Error := errMsg,
                              Duration := elapsed env, RedirectCount := redirectCount\<rparr>) fs))
            | DoResponse code final redirectCount body err \<Rightarrow>
                (case err of
                   Some msg \<Rightarrow>
                     Inr (updateResult index
                            (zeroResult\<lparr>URL := url, Status := ''failed'', StatusCode := code,
                               Error := ''Failed to read response body: '' @ msg,
                               Duration := elapsed env, FinalURL := final,
                               RedirectCount := redirectCount\<rparr>) fs)
                 | None \<Rightarrow>
                     if MaxContentSize (config fs) \<le> int (length body) then
                       Inr (updateResult index
                              (zeroResult\<lparr>URL := url, Status := ''failed'', StatusCode := code,
                                 Error := ''Response body too large (exceeds ''
                                            @ showInt (MaxContentSize (config fs)) @ '' bytes)'',
                                 Duration := elapsed env, FinalURL := final,
                                 RedirectCount := redirectCount\<rparr>) fs)
                     else
                       Inr (updateResult index
                              (zeroResult\<lparr>URL := url, Status := ''success'', Content := body,
                                 ContentLength := int (length body), StatusCode := code,
                                 FetchedAt := finished env, Duration := elapsed env,
                                 FinalURL := final, RedirectCount := redirectCount\<rparr>) fs)))))"

subsection \<open>GetResults\<close>

text \<open>The loop of \<^verbatim>\<open>GetResults\<close> over the entries: the switch on the status counts an
  entry in at most one of the three counters.\<close>

fun countResults :: "FetchResult list \<Rightarrow> FetchResponse \<Rightarrow> FetchResponse" where
  "countResults [] response = response"
| "countResults (result # rs) response =
     countResults rs
       (if Status result = ''success'' then
          response\<lparr>SuccessCount := SuccessCount response + 1\<rparr>
        else if Status result = ''failed'' then
          response\<lparr>FailedCount := FailedCount response + 1\<rparr>
        else if Status result = ''pending'' then
          response\<lparr>PendingCount := PendingCount response + 1\<rparr>
        else response)"

definition GetResults :: "FetchService \<Rightarrow> FetchResponse" where
  "GetResults fs =
     countResults (results fs)
       \<lparr>TotalURLs = int (length (results fs)), SuccessCount = 0, FailedCount = 0,
        PendingCount = 0, Results = results fs, LastSubmission = lastSubmission fs\<rparr>"

subsection \<open>cleanupOldResults\<close>

text \<open>The first loop of the sweep: the entries younger than the TTL, in order, and the
  number of the others.\<close>

fun removeOld ::
    "Time \<Rightarrow> Duration \<Rightarrow> FetchResult list \<Rightarrow> FetchResult list \<times> int
      \<Rightarrow> FetchResult list \<times> int" where
  "removeOld now ttl [] (newResults, cleaned) = (newResults, cleaned)"
| "removeOld now ttl (result # rs) (newResults, cleaned) =
     (if Sub now (CreatedAt result) < ttl then
        removeOld now ttl rs (newResults @ [result], cleaned)
      else removeOld now ttl rs (newResults, cleaned + 1))"

definition cleanupOldResults :: "Time \<Rightarrow> FetchService \<Rightarrow> panic + FetchService" where
  "cleanupOldResults now fs =
     (let (newResults, cleaned) = removeOld now (ResultTTL (config fs)) (results fs) ([], 0);
          maxResults = MaxResultsInMemory (config fs);
          excess = int (length newResults) - maxResults
      in if maxResults < int (length newResults) \<and> int (length newResults) < excess then
           Inl SliceBoundsOutOfRange
         else
           (let (newResults, cleaned) =
                  (if maxResults < int (length newResults) then
                     (drop (nat excess) newResults, cleaned + excess)
                   else (newResults, cleaned))
            in if 0 < cleaned then
                 Inr (fs\<lparr>results := newResults,
                        cleanupStats := (cleanupStats fs)
                          \<lparr>LastCleanup := now,
                           TotalCleaned := TotalCleaned (cleanupStats fs) + cleaned,
                           CleanupCount := CleanupCount (cleanupStats fs) + 1,
                           ResultsInMemory := int (length newResults)\<rparr>\<rparr>)
               else Inr fs))"

subsection \<open>ClearAllResults and GetCleanupStats\<close>

definition ClearAllResults :: "FetchService \<Rightarrow> int \<times> FetchService" where
  "ClearAllResults fs =
     (let count = int (length (results fs))
      in (count,
          fs\<lparr>results := [],
             cleanupStats := (cleanupStats fs)
               \<lparr>TotalCleaned := TotalCleaned (cleanupStats fs) + count,
                ResultsInMemory := 0\<rparr>\<rparr>))"

definition GetCleanupStats :: "FetchService \<Rightarrow> CleanupStats" where
  "GetCleanupStats fs = (cleanupStats fs)\<lparr>ResultsInMemory := int (length (results fs))\<rparr>"

subsection \<open>The states of the store\<close>

text \<open>
  The states the public operations reach from a new service: a submission, a fetch
  task, a sweep and a clear. A call that panics reaches no state. A fetch task reads its
  URL and writes its outcome in two critical sections, so its write can land in a store
  that other operations have changed since the read: \<open>deferred\<close> is this write,
  of an outcome with one of the two statuses that \<open>fetchURL\<close> writes, at any position.
\<close>

inductive reachable :: "FetchService \<Rightarrow> bool" where
  init: "reachable (NewFetchService cfg rl)"
| submit: "reachable fs \<Longrightarrow> reachable (SubmitURLs t0 now urls fs)"
| fetch: "reachable fs \<Longrightarrow> fetchURL env index fs = Inr fs' \<Longrightarrow> reachable fs'"
| deferred: "reachable fs \<Longrightarrow> Status result = ''failed'' \<or> Status result = ''success''
           \<Longrightarrow> reachable (updateResult index result fs)"
| cleanup: "reachable fs \<Longrightarrow> cleanupOldResults now fs = Inr fs' \<Longrightarrow> reachable fs'"
| clear: "reachable fs \<Longrightarrow> reachable (snd (ClearAllResults fs))"

section \<open>Auxiliary definitions\<close>

text \<open>The tokens of a visitor after the refill of a call at \<open>now\<close>.\<close>

definition refilled :: "RateLimiter \<Rightarrow> Visitor \<Rightarrow> Time \<Rightarrow> 64 word" where
  "refilled rl v now =
     min_go (tokens v + tokensToAdd (burst rl) (window rl) (Sub now (windowStart v))) (burst rl)"

text \<open>
  A small service for the examples: bodies capped at 4 bytes, a TTL of 100 ns and at
  most 2 results in memory; the limiter has the defaults of the configuration loader
  (100 requests a minute, burst 20).
\<close>

definition exampleConfig :: Config where
  "exampleConfig =
     \<lparr>FetchTimeout = 5000000000, MaxRedirects = 10, MaxContentSize = 4, ResultTTL = 100,
      CleanupInterval = 10, MaxResultsInMemory = 2\<rparr>"

definition exampleService :: FetchService where
  "exampleService = NewFetchService exampleConfig (NewRateLimiter 100 20 60000000000)"

text \<open>One batch of three URLs submitted at time 8, and four single submissions at the
  times 0, 50, 90 and 110.\<close>

definition exampleStore :: FetchService where
  "exampleStore = SubmitURLs 7 8 [''https://a.test'', [], ''https://b.test''] exampleService"

definition exampleAged :: FetchService where
  "exampleAged =
     SubmitURLs 110 110 [''d'']
       (SubmitURLs 90 90 [''c'']
         (SubmitURLs 50 50 [''b'']
           (SubmitURLs 0 0 [''a''] exampleService)))"

text \<open>The store that the sweep of \<open>exampleAged\<close> at the time 120 leaves: the entry of
  time 0 has expired and the entry of time 50 is beyond the ceiling of 2.\<close>

definition exampleSwept :: FetchService where
  "exampleSwept =
     exampleAged\<lparr>results := [pendingResult 90 ''c'', pendingResult 110 ''d''],
       cleanupStats :=
         \<lparr>LastCleanup = 120, TotalCleaned = 2, CleanupCount = 1, ResultsInMemory = 2\<rparr>\<rparr>"

text \<open>Two fetches: a response of 2 bytes, and a response of 4 bytes, as many as the cap,
  after one redirect.\<close>

definition exampleOK :: FetchEnv where
  "exampleOK =
     \<lparr>transport = DoResponse 200 ''https://a.test'' 0 ''hi'' None, elapsed = ''12ms'',
      finished = 30\<rparr>"

definition exampleLarge :: FetchEnv where
  "exampleLarge =
     \<lparr>transport = DoResponse 200 ''https://b.test/big'' 1 ''abcd'' None, elapsed = ''15ms'',
      finished = 31\<rparr>"

text \<open>The store after the fetch tasks of the first two entries of \<open>exampleStore\<close>.\<close>

definition exampleFetched :: FetchService where
  "exampleFetched =
     updateResult 1
       (zeroResult\<lparr>URL := [], Status := ''failed'', Error := ''URL is empty'',
          Duration := ''12ms''\<rparr>)
       (updateResult 0
          (zeroResult\<lparr>URL := ''https://a.test'', Status := ''success'', Content := ''hi'',
             ContentLength := 2, StatusCode := 200, FetchedAt := 30, Duration := ''12ms'',
             FinalURL := ''https://a.test'', RedirectCount := 0\<rparr>)
          exampleStore)"





declare digits.simps [simp del]

declare log2floor.simps [simp del]

section \<open>float64: lemmas\<close>

lemma roundHalfEven_bounds:
  "x - 1 / 2 \<le> of_int (roundHalfEven x) \<and> of_int (roundHalfEven x) \<le> x + 1 / 2"
proof -
  define n where "n = \<lfloor>x\<rfloor>"
  have n: "of_int n \<le> x" "x < of_int n + 1" unfolding n_def by linarith+
  consider "x - of_int n < 1 / 2" | "1 / 2 < x - of_int n" | "x - of_int n = 1 / 2"
    by linarith
  then show ?thesis
  proof cases
    case 1
    then have "roundHalfEven x = n" by (simp add: roundHalfEven_def n_def)
    with n 1 show ?thesis by simp
  next
    case 2
    then have "roundHalfEven x = n + 1" by (simp add: roundHalfEven_def n_def)
    with n 2 show ?thesis by simp
  next
    case 3
    then have "roundHalfEven x = n \<or> roundHalfEven x = n + 1"
      by (simp add: roundHalfEven_def n_def Let_def)
    with n 3 show ?thesis by auto
  qed
qed

lemma log2floor_le:
  "0 < q \<Longrightarrow> (if 0 \<le> log2floor q then 2 ^ nat (log2floor q) \<le> q
                 else 1 \<le> q * 2 ^ nat (- log2floor q))"
proof (induction q rule: log2floor.induct)
  case (1 q)
  show ?case
  proof (cases "2 \<le> q")
    case True
    with 1 have ih: "if 0 \<le> log2floor (q / 2) then 2 ^ nat (log2floor (q / 2)) \<le> q / 2
                 else 1 \<le> q / 2 * 2 ^ nat (- log2floor (q / 2))" by simp
    from True "1.prems" have eq: "log2floor q = log2floor (q / 2) + 1"
      by (subst log2floor.simps) simp
    show ?thesis
    proof (cases "0 \<le> log2floor (q / 2)")
      case nn: True
      with ih have "2 ^ nat (log2floor (q / 2)) \<le> q / 2" by simp
      then have "2 * 2 ^ nat (log2floor (q / 2)) \<le> q" by simp
      moreover from nn have "nat (log2floor (q / 2) + 1) = Suc (nat (log2floor (q / 2)))" by simp
      ultimately show ?thesis using nn by (simp add: eq)
    next
      case neg: False
      with ih have h: "1 \<le> q / 2 * 2 ^ nat (- log2floor (q / 2))" by simp
      from neg have "nat (- log2floor (q / 2)) = Suc (nat (- (log2floor (q / 2) + 1)))" by simp
      with h have h': "1 \<le> q * 2 ^ nat (- (log2floor (q / 2) + 1))" by simp
      show ?thesis
      proof (cases "0 \<le> log2floor (q / 2) + 1")
        case True
        with neg have "log2floor (q / 2) + 1 = 0" by simp
        with h' True "1.prems" show ?thesis by (simp add: eq)
      next
        case False
        with h' show ?thesis by (simp add: eq)
      qed
    qed
  next
    case nt: False
    show ?thesis
    proof (cases "q < 1")
      case True
      with nt 1 have ih: "if 0 \<le> log2floor (q * 2) then 2 ^ nat (log2floor (q * 2)) \<le> q * 2
                 else 1 \<le> q * 2 * 2 ^ nat (- log2floor (q * 2))" by simp
      from True nt "1.prems" have eq: "log2floor q = log2floor (q * 2) - 1"
        by (subst log2floor.simps) simp
      show ?thesis
      proof (cases "0 \<le> log2floor (q * 2)")
        case nn: True
        with ih have h: "2 ^ nat (log2floor (q * 2)) \<le> q * 2" by simp
        show ?thesis
        proof (cases "0 \<le> log2floor (q * 2) - 1")
          case True
          then have "nat (log2floor (q * 2)) = Suc (nat (log2floor (q * 2) - 1))" by simp
          with h True show ?thesis by (simp add: eq)
        next
          case False
          with nn have z: "log2floor (q * 2) = 0" by simp
          with h show ?thesis by (simp add: eq)
        qed
      next
        case neg: False
        with ih have h: "1 \<le> q * 2 * 2 ^ nat (- log2floor (q * 2))" by simp
        from neg have "nat (- (log2floor (q * 2) - 1)) = Suc (nat (- log2floor (q * 2)))" by simp
        with h neg show ?thesis by (simp add: eq mult.assoc)
      qed
    next
      case False
      with nt "1.prems" have "log2floor q = 0" by (subst log2floor.simps) simp
      with False show ?thesis by simp
    qed
  qed
qed

lemma roundFloat64_bounds:
  assumes "0 \<le> q"
  shows "q * (15 / 16) \<le> roundFloat64 q \<and> roundFloat64 q \<le> q * (17 / 16)"
proof (cases "q = 0")
  case True
  then show ?thesis by (simp add: roundFloat64_def)
next
  case False
  with assms have pos: "0 < q" by simp
  define e where "e = log2floor \<bar>q\<bar>"
  define s :: real where "s = (if e \<le> 52 then 2 ^ nat (52 - e) else 1 / 2 ^ nat (e - 52))"
  have spos: "0 < s" by (simp add: s_def)
  have big: "8 \<le> q * s"
  proof -
    from pos have e': "e = log2floor q" by (simp add: e_def)
    from log2floor_le [OF pos]
    have le: "if 0 \<le> e then 2 ^ nat e \<le> q else 1 \<le> q * 2 ^ nat (- e)"
      by (simp add: e')
    have "2 ^ 52 \<le> q * s"
    proof (cases "0 \<le> e")
      case nn: True
      with le have q: "2 ^ nat e \<le> q" by simp
      show ?thesis
      proof (cases "e \<le> 52")
        case True
        with nn have "nat e + nat (52 - e) = 52" by simp
        then have "(2::real) ^ 52 = 2 ^ nat e * 2 ^ nat (52 - e)"
          by (simp only: power_add [symmetric])
        also from q have "\<dots> \<le> q * 2 ^ nat (52 - e)" by (simp add: mult_right_mono)
        finally show ?thesis using True by (simp add: s_def)
      next
        case False
        then have "nat e = 52 + nat (e - 52)" by simp
        then have "(2::real) ^ nat e = 2 ^ 52 * 2 ^ nat (e - 52)"
          by (simp only: power_add)
        with q have "(2::real) ^ 52 * 2 ^ nat (e - 52) \<le> q" by simp
        then have "(2::real) ^ 52 \<le> q / 2 ^ nat (e - 52)" by (simp add: pos_le_divide_eq)
        with False show ?thesis by (simp add: s_def)
      qed
    next
      case neg: False
      with le have q: "1 \<le> q * 2 ^ nat (- e)" by simp
      from neg have "nat (52 - e) = 52 + nat (- e)" by simp
      then have "q * (2::real) ^ nat (52 - e) = 2 ^ 52 * (q * 2 ^ nat (- e))"
        by (simp only: power_add mult_ac)
      also from q have "\<dots> \<ge> 2 ^ 52 * 1" by (intro mult_left_mono) simp_all
      finally have "(2::real) ^ 52 \<le> q * 2 ^ nat (52 - e)" by simp
      with neg show ?thesis by (simp add: s_def)
    qed
    then show ?thesis by simp
  qed
  have r: "roundFloat64 q = of_int (roundHalfEven (q * s)) / s"
    using False by (simp add: roundFloat64_def Let_def e_def s_def)
  from roundHalfEven_bounds [of "q * s"] big
  have "q * s * (15 / 16) \<le> of_int (roundHalfEven (q * s))"
    and "of_int (roundHalfEven (q * s)) \<le> q * s * (17 / 16)" by linarith+
  with spos have "q * (15 / 16) \<le> of_int (roundHalfEven (q * s)) / s"
    and "of_int (roundHalfEven (q * s)) / s \<le> q * (17 / 16)"
    by (simp_all add: pos_le_divide_eq pos_divide_le_eq mult.commute mult.left_commute)
  then show ?thesis by (simp add: r)
qed

lemma roundFloat64_nonneg: "0 \<le> q \<Longrightarrow> 0 \<le> roundFloat64 q"
  using roundFloat64_bounds [of q] by linarith

lemma Seconds_bounds:
  assumes "0 \<le> d"
  shows "3375 / 4096 * (of_int d / 1000000000) \<le> Seconds d
       \<and> Seconds d \<le> 4913 / 4096 * (of_int d / 1000000000)"
proof -
  define sec where "sec = d div 1000000000"
  define nsec where "nsec = d mod 1000000000"
  from assms have sd: "d sdiv 1000000000 = sec" "d smod 1000000000 = nsec"
    by (simp_all add: signed_divide_int_def signed_modulo_int_def sec_def nsec_def sgn_if)
  from assms have nn: "0 \<le> sec" "0 \<le> nsec"
    by (simp_all add: sec_def nsec_def pos_imp_zdiv_nonneg_iff)
  have "d = sec * 1000000000 + nsec" by (simp add: sec_def nsec_def)
  then have "(of_int d :: real) = of_int sec * 1000000000 + of_int nsec"
    by (metis of_int_add of_int_mult of_int_numeral)
  then have d: "(of_int d :: real) / 1000000000 = of_int sec + of_int nsec / 1000000000"
    by simp
  define a where "a = float64_of_int sec"
  define b0 where "b0 = float64_of_int nsec"
  define x where "x = b0 / 1000000000"
  define b where "b = roundFloat64 x"
  from nn have r0: "(0::real) \<le> of_int sec" "(0::real) \<le> of_int nsec" by simp_all
  note r = r0 [THEN roundFloat64_bounds]
  have a: "of_int sec * (15 / 16) \<le> a" "a \<le> of_int sec * (17 / 16)"
    using r(1) by (simp_all add: a_def float64_of_int_def)
  have b0: "of_int nsec * (15 / 16) \<le> b0" "b0 \<le> of_int nsec * (17 / 16)"
    using r(2) by (simp_all add: b0_def float64_of_int_def)
  with nn have x: "of_int nsec / 1000000000 * (15 / 16) \<le> x"
    "x \<le> of_int nsec / 1000000000 * (17 / 16)" "0 \<le> x"
    by (simp_all add: x_def)
  from roundFloat64_bounds [OF x(3)] have b: "x * (15 / 16) \<le> b" "b \<le> x * (17 / 16)"
    by (simp_all add: b_def)
  from a b x nn have "0 \<le> a + b" by simp
  from roundFloat64_bounds [OF this]
  have s: "(a + b) * (15 / 16) \<le> roundFloat64 (a + b)"
    "roundFloat64 (a + b) \<le> (a + b) * (17 / 16)" by simp_all
  have S: "Seconds d = roundFloat64 (a + b)"
    by (simp add: Seconds_def fadd_def fdiv_def sd a_def b_def x_def b0_def)
  from r0 a b x s
  have "3375 / 4096 * (of_int sec + of_int nsec / 1000000000) \<le> roundFloat64 (a + b)"
    by simp
  moreover from r0 a b x s
  have "roundFloat64 (a + b) \<le> 4913 / 4096 * (of_int sec + of_int nsec / 1000000000)"
    by simp
  ultimately show ?thesis unfolding S d by (rule conjI)
qed

section \<open>The limiter: lemmas\<close>

lemma sint_word_of_int_64:
  "- (2 ^ 63) \<le> n \<Longrightarrow> n < 2 ^ 63 \<Longrightarrow> sint (word_of_int n :: 64 word) = n"
  by (simp add: sint_sbintrunc' signed_take_bit_int_eq_self)

lemma sint_add_64:
  fixes a b :: "64 word"
  assumes "- (2 ^ 63) \<le> sint a + sint b" and "sint a + sint b < 2 ^ 63"
  shows "sint (a + b) = sint a + sint b"
  using assms by (simp add: sint_word_ariths signed_take_bit_int_eq_self)

lemma sint_sub_64:
  fixes a b :: "64 word"
  assumes "- (2 ^ 63) \<le> sint a - sint b" and "sint a - sint b < 2 ^ 63"
  shows "sint (a - b) = sint a - sint b"
  using assms by (simp add: sint_word_ariths signed_take_bit_int_eq_self)

lemma tokensToAdd_bounds:
  assumes "0 \<le> el" and "el \<le> w" and "0 \<le> sint b" and "sint b \<le> 2 ^ 61"
  shows "0 \<le> sint (tokensToAdd b w el) \<and> sint (tokensToAdd b w el) \<le> 2 * sint b"
proof (cases "0 < Seconds w")
  case False
  then have "tokensToAdd b w el = b" by (simp add: tokensToAdd_def Let_def)
  with assms(3) show ?thesis by simp
next
  case True
  define EL :: real where "EL = of_int el / 1000000000"
  define W :: real where "W = of_int w / 1000000000"
  define bi where "bi = sint b"
  from assms have bi: "0 \<le> bi" "bi \<le> 2 ^ 61" by (simp_all add: bi_def)
  define B :: real where "B = of_int bi"
  define es where "es = Seconds el"
  define fb where "fb = float64_of_int bi"
  define ws where "ws = Seconds w"
  from assms have w0: "0 \<le> w" by simp
  from Seconds_bounds [OF assms(1)] have es: "es \<le> 4913 / 4096 * EL" "3375 / 4096 * EL \<le> es"
    by (simp_all add: es_def EL_def)
  from Seconds_bounds [OF w0] have ws: "3375 / 4096 * W \<le> ws" "ws \<le> 4913 / 4096 * W"
    by (simp_all add: ws_def W_def)
  from True have wspos: "0 < ws" by (simp add: ws_def)
  with ws have Wpos: "0 < W" by linarith
  from assms have EL: "0 \<le> EL" "EL \<le> W" by (simp_all add: EL_def W_def)
  from bi have B: "0 \<le> B" by (simp add: B_def)
  from roundFloat64_bounds [OF B] have fb: "0 \<le> fb" "fb \<le> 17 / 16 * B"
    using B by (simp_all add: fb_def float64_of_int_def B_def)
  from es EL have es0: "0 \<le> es" by linarith
  define p where "p = fmul es fb"
  from es0 fb have "0 \<le> es * fb" by simp
  from roundFloat64_bounds [OF this] this
  have p: "0 \<le> p" "p \<le> 17 / 16 * (es * fb)" by (simp_all add: p_def fmul_def)
  have "es * fb \<le> (4913 / 4096 * EL) * (17 / 16 * B)"
    using es(1) fb es0 by (intro mult_mono) simp_all
  with p have p': "p \<le> 17 / 16 * ((4913 / 4096 * EL) * (17 / 16 * B))" by linarith
  define q where "q = p / ws"
  from p wspos have q0: "0 \<le> q" by (simp add: q_def)
  have "q \<le> (17 / 16 * ((4913 / 4096 * EL) * (17 / 16 * B))) / (3375 / 4096 * W)"
    unfolding q_def using p(1) p' Wpos ws(1) by (intro frac_le) simp_all
  also have "\<dots> = 1419857 / 864000 * (B * (EL / W))" by simp
  finally have q: "q \<le> 1419857 / 864000 * (B * (EL / W))" .
  from EL Wpos have "EL / W \<le> 1" by simp
  with B have "B * (EL / W) \<le> B * 1" by (intro mult_left_mono)
  with q have q': "q \<le> 1419857 / 864000 * B" by simp
  define x where "x = fdiv p ws"
  from roundFloat64_bounds [OF q0] q0
  have x: "0 \<le> x" "x \<le> 17 / 16 * q" by (simp_all add: x_def fdiv_def q_def)
  with q' B have xB: "x \<le> 2 * B" by linarith
  define n where "n = \<lfloor>x\<rfloor>"
  from x(1) have n0: "0 \<le> n" by (simp add: n_def)
  have "of_int n \<le> x" by (simp add: n_def)
  with xB have "(of_int n :: real) \<le> of_int (2 * bi)" by (simp add: B_def)
  then have nB: "n \<le> 2 * bi" by (simp only: of_int_le_iff)
  with bi have n63: "n < 2 ^ 63" by simp
  have "tokensToAdd b w el = word_of_int n"
    using True x(1) n0 n63
    by (simp add: tokensToAdd_def Let_def int_of_float64_def x_def p_def es_def fb_def ws_def
        n_def bi_def)
  with n0 n63 nB show ?thesis by (simp add: sint_word_of_int_64 bi_def)
qed

lemma Allow_in_window:
  assumes "visitors rl ip = Some v" and "\<not> window rl < Sub now (windowStart v)"
  shows "Allow now ip rl =
     (if rate rl <=s requestCount v then (False, setVisitor ip (v\<lparr>lastSeen := now\<rparr>) rl)
      else if 0 <s refilled rl v now then
        (True, setVisitor ip
           (v\<lparr>lastSeen := now, tokens := refilled rl v now - 1,
              requestCount := requestCount v + 1\<rparr>) rl)
      else (False, setVisitor ip (v\<lparr>lastSeen := now, tokens := refilled rl v now\<rparr>) rl))"
  using assms by (simp add: Allow_def Let_def refilled_def)

lemma Allow_window_start:
  assumes "case visitors rl ip of None \<Rightarrow> True | Some v \<Rightarrow> window rl < Sub now (windowStart v)"
  shows "\<exists>v1. Allow now ip rl = (True, setVisitor ip v1 rl) \<and> windowStart v1 = now
           \<and> requestCount v1 = 1 \<and> tokens v1 = burst rl - 1"
  using assms by (auto simp: Allow_def Let_def split: option.splits)

lemma setVisitor_fields [simp]:
  "visitors (setVisitor ip v rl) ip = Some v"
  "rate (setVisitor ip v rl) = rate rl"
  "burst (setVisitor ip v rl) = burst rl"
  "window (setVisitor ip v rl) = window rl"
  "setVisitor ip v' (setVisitor ip v rl) = setVisitor ip v' rl"
  by (simp_all add: setVisitor_def)

lemma setVisitor_same: "visitors rl ip = Some v \<Longrightarrow> setVisitor ip v rl = rl"
  by (simp add: setVisitor_def map_upd_triv)

lemma refilled_bounds:
  assumes "0 \<le> Sub now (windowStart v)" and "Sub now (windowStart v) \<le> window rl"
    and "0 \<le> k" and "k \<le> sint (tokens v)" and "sint (tokens v) \<le> sint (burst rl)"
    and "sint (burst rl) \<le> 2 ^ 61"
  shows "k \<le> sint (refilled rl v now) \<and> sint (refilled rl v now) \<le> sint (burst rl)"
proof -
  define add where "add = tokensToAdd (burst rl) (window rl) (Sub now (windowStart v))"
  from assms have b0: "0 \<le> sint (burst rl)" by linarith
  from tokensToAdd_bounds [OF assms(1,2) b0 assms(6)]
  have add: "0 \<le> sint add" "sint add \<le> 2 * sint (burst rl)" by (simp_all add: add_def)
  from assms add have "- (2 ^ 63) \<le> sint (tokens v) + sint add"
    and "sint (tokens v) + sint add < 2 ^ 63" by simp_all
  then have sum: "sint (tokens v + add) = sint (tokens v) + sint add" by (rule sint_add_64)
  have "refilled rl v now = min_go (tokens v + add) (burst rl)"
    by (simp add: refilled_def add_def)
  then have "sint (refilled rl v now) =
      (if sint (tokens v) + sint add < sint (burst rl) then sint (tokens v) + sint add
       else sint (burst rl))"
    by (simp add: min_go_def word_sless_alt sum)
  with assms add show ?thesis by (auto split: if_splits)
qed

lemma AllowAll_all_allowed:
  assumes "visitors rl ip = Some v"
    and "\<forall>u \<in> set us. 0 \<le> Sub u (windowStart v) \<and> Sub u (windowStart v) \<le> window rl"
    and "int (length us) \<le> sint (tokens v)" and "sint (tokens v) \<le> sint (burst rl)"
    and "sint (burst rl) \<le> 2 ^ 61"
    and "sint (requestCount v) + int (length us) \<le> sint (rate rl)"
  shows "\<exists>v'. AllowAll us ip rl = (replicate (length us) True, setVisitor ip v' rl)
           \<and> windowStart v' = windowStart v
           \<and> sint (requestCount v') = sint (requestCount v) + int (length us)"
  using assms
proof (induction us arbitrary: rl v)
  case Nil
  then show ?case by (auto simp: setVisitor_same intro!: exI [of _ v])
next
  case (Cons u us)
  let ?k = "int (length us)"
  from Cons.prems have inwin: "\<not> window rl < Sub u (windowStart v)"
    and el: "0 \<le> Sub u (windowStart v)" "Sub u (windowStart v) \<le> window rl" by auto
  from Cons.prems have rc: "sint (requestCount v) < sint (rate rl)" by auto
  then have rc': "\<not> rate rl <=s requestCount v" by (simp add: word_sle_eq)
  have "0 \<le> ?k + 1" by simp
  moreover from Cons.prems have "?k + 1 \<le> sint (tokens v)" by simp
  ultimately have rf: "?k + 1 \<le> sint (refilled rl v u)"
    "sint (refilled rl v u) \<le> sint (burst rl)"
    using refilled_bounds [OF el _ _ Cons.prems(4,5), of "?k + 1"] by simp_all
  from rf have pos: "0 <s refilled rl v u" by (simp add: word_sless_alt)
  define v1 where "v1 = v\<lparr>lastSeen := u, tokens := refilled rl v u - 1,
              requestCount := requestCount v + 1\<rparr>"
  define rl1 where "rl1 = setVisitor ip v1 rl"
  from rc' pos have step: "Allow u ip rl = (True, rl1)"
    by (simp add: Allow_in_window [OF Cons.prems(1) inwin] v1_def rl1_def)
  have tk: "sint (tokens v1) = sint (refilled rl v u) - 1"
  proof -
    have "sint (refilled rl v u - 1) = sint (refilled rl v u) - sint (1 :: 64 word)"
      using rf sint_lt [of "refilled rl v u"] by (intro sint_sub_64) simp_all
    then show ?thesis by (simp add: v1_def)
  qed
  have cnt: "sint (requestCount v1) = sint (requestCount v) + 1"
  proof -
    have "sint (requestCount v + 1) = sint (requestCount v) + sint (1 :: 64 word)"
      using rc sint_lt [of "rate rl"] sint_ge [of "requestCount v"]
      by (intro sint_add_64) simp_all
    then show ?thesis by (simp add: v1_def)
  qed
  have "\<exists>v'. AllowAll us ip rl1 = (replicate (length us) True, setVisitor ip v' rl1)
           \<and> windowStart v' = windowStart v1
           \<and> sint (requestCount v') = sint (requestCount v1) + int (length us)"
  proof (rule Cons.IH)
    show "visitors rl1 ip = Some v1" by (simp add: rl1_def)
    show "\<forall>u \<in> set us. 0 \<le> Sub u (windowStart v1) \<and> Sub u (windowStart v1) \<le> window rl1"
      using Cons.prems(2) by (simp add: rl1_def v1_def)
    show "int (length us) \<le> sint (tokens v1)" using rf tk by simp
    show "sint (tokens v1) \<le> sint (burst rl1)" using rf tk by (simp add: rl1_def)
    show "sint (burst rl1) \<le> 2 ^ 61" using Cons.prems(5) by (simp add: rl1_def)
    show "sint (requestCount v1) + int (length us) \<le> sint (rate rl1)"
      using Cons.prems(6) cnt by (simp add: rl1_def)
  qed
  then obtain v' where "AllowAll us ip rl1 = (replicate (length us) True, setVisitor ip v' rl1)"
    and "windowStart v' = windowStart v1"
    and "sint (requestCount v') = sint (requestCount v1) + int (length us)" by blast
  with step cnt show ?case
    by (auto simp: rl1_def v1_def intro!: exI [of _ v'])
qed

lemma AllowAll_cap:
  assumes "visitors rl ip = Some v"
    and "\<forall>u \<in> set us. \<not> window rl < Sub u (windowStart v)"
  shows "int (length (filter (\<lambda>ok. ok) (fst (AllowAll us ip rl))))
           \<le> max 0 (sint (rate rl) - sint (requestCount v))"
  using assms
proof (induction us arbitrary: rl v)
  case Nil
  then show ?case by simp
next
  case (Cons u us)
  from Cons.prems have inwin: "\<not> window rl < Sub u (windowStart v)" by simp
  obtain ok rl1 where step: "Allow u ip rl = (ok, rl1)" by (cases "Allow u ip rl")
  from step Allow_in_window [OF Cons.prems(1) inwin]
  obtain v1 where v1: "rl1 = setVisitor ip v1 rl" "windowStart v1 = windowStart v"
      "requestCount v1 = (if ok then requestCount v + 1 else requestCount v)"
      "ok \<longrightarrow> sint (requestCount v) < sint (rate rl)"
    by (auto simp: word_sle_eq split: if_splits)
  have cnt: "sint (requestCount v1) = sint (requestCount v) + (if ok then 1 else 0)"
  proof (cases ok)
    case True
    with v1 have rc: "sint (requestCount v) < sint (rate rl)" by simp
    have "sint (requestCount v + 1) = sint (requestCount v) + sint (1 :: 64 word)"
      using rc sint_lt [of "rate rl"] sint_ge [of "requestCount v"]
      by (intro sint_add_64) simp_all
    with True v1 show ?thesis by simp
  next
    case False
    with v1 show ?thesis by simp
  qed
  have "int (length (filter (\<lambda>ok. ok) (fst (AllowAll us ip rl1))))
           \<le> max 0 (sint (rate rl1) - sint (requestCount v1))"
  proof (rule Cons.IH)
    show "visitors rl1 ip = Some v1" by (simp add: v1)
    show "\<forall>u \<in> set us. \<not> window rl1 < Sub u (windowStart v1)"
      using Cons.prems(2) by (simp add: v1)
  qed
  with v1(1,4) cnt step show ?case
    by (auto simp: split_beta Let_def split: if_splits)
qed

lemma AllowAll_append:
  "AllowAll (us @ ws) ip rl =
     (fst (AllowAll us ip rl) @ fst (AllowAll ws ip (snd (AllowAll us ip rl))),
      snd (AllowAll ws ip (snd (AllowAll us ip rl))))"
  by (induction us arbitrary: rl) (simp_all add: split_beta Let_def)

lemma Seconds_1000: "Seconds 1000 = 4722366482869645 / 4722366482869645213696"
  by (simp add: Seconds_def fadd_def fdiv_def float64_of_int_def roundFloat64_def
      log2floor.simps roundHalfEven_def Let_def signed_divide_int_def signed_modulo_int_def)

lemma Seconds_minute: "Seconds 60000000000 = 60"
  by (simp add: Seconds_def fadd_def fdiv_def float64_of_int_def roundFloat64_def
      log2floor.simps roundHalfEven_def Let_def signed_divide_int_def signed_modulo_int_def)

lemma example_refill:
  "tokensToAdd 1 60000000000 1000 = 0" "tokensToAdd 1 60000000000 60000000000 = 1"
  by (simp_all add: tokensToAdd_def Seconds_1000 Seconds_minute Let_def fmul_def fdiv_def
      float64_of_int_def int_of_float64_def roundFloat64_def log2floor.simps roundHalfEven_def)

section \<open>The first call of a key\<close>

text \<open>
  C10. Whatever the rate, the burst and the window are (zero and negative values
  included), the first \<^verbatim>\<open>Allow\<close> of a key that has no visitor returns true and creates
  the visitor with \<open>tokens = burst - 1\<close>, \<open>requestCount = 1\<close> and both timestamps at
  the time of the call: neither the rate nor the tokens are looked at. The limiter's
  configuration and the other keys' visitors are left as they were.
\<close>

theorem Allow_first_call:
  assumes "visitors rl ip = None"
  shows "fst (Allow now ip rl) = True
    \<and> visitors (snd (Allow now ip rl)) ip =
          Some \<lparr>tokens = burst rl - 1, lastSeen = now, windowStart = now, requestCount = 1\<rparr>
    \<and> rate (snd (Allow now ip rl)) = rate rl
    \<and> burst (snd (Allow now ip rl)) = burst rl
    \<and> window (snd (Allow now ip rl)) = window rl
    \<and> (\<forall>ip'. ip' \<noteq> ip \<longrightarrow> visitors (snd (Allow now ip rl)) ip' = visitors rl ip')"
  using assms by (simp add: Allow_def setVisitor_def)

theorem Allow_first_call_witness:
  "visitors (NewRateLimiter 0 0 0) ''10.0.0.1'' = None
   \<and> fst (Allow 5 ''10.0.0.1'' (NewRateLimiter 0 0 0)) = True
   \<and> visitors (snd (Allow 5 ''10.0.0.1'' (NewRateLimiter 0 0 0))) ''10.0.0.1'' =
       Some \<lparr>tokens = - 1, lastSeen = 5, windowStart = 5, requestCount = 1\<rparr>"
proof -
  have h: "visitors (NewRateLimiter 0 0 0) ''10.0.0.1'' = None"
    by (simp add: NewRateLimiter_def)
  show ?thesis
    using h Allow_first_call [OF h, of 5]
    by (simp add: NewRateLimiter_def)
qed

section \<open>The quota of a window\<close>

text \<open>
  C1 as it is stated fails. With rate 2 and burst 1 in a window of one minute, the
  second call of a key, made one microsecond after the first, is denied although only
  one call has been counted: the bucket is empty and the refill is
  \<open>int(0.000001 * 1 / 60) = 0\<close>. The third call, at the end of the same window, finds
  \<open>int(60 * 1 / 60) = 1\<close> token refilled and is allowed.
\<close>

theorem Allow_denied_before_rate:
  "fst (AllowAll [0, 1000, 60000000000] ''10.0.0.1'' (NewRateLimiter 2 1 60000000000))
     = [True, False, True]"
  by (simp add: Allow_def NewRateLimiter_def setVisitor_def Let_def Sub_def minDuration_def
      maxDuration_def example_refill min_go_def word_sle_eq word_sless_alt)

text \<open>
  C1, amended. A window of a key starts at the call at \<open>t0\<close> that creates its visitor or
  finds the previous window expired; the calls at the times \<open>us\<close> follow inside this
  window (elapsed time between 0 and the window). For a rate \<open>R \<ge> 1\<close>:
  \<^item> if \<open>R \<le> burst \<le> 2^61\<close> and \<open>us\<close> holds \<open>R\<close> calls, the first \<open>R\<close> calls of the
    window are allowed and call \<open>R + 1\<close> is denied, whatever the elapsed times are (the
    bound on the burst keeps the 64-bit sum of the tokens and the refill from wrapping);
  \<^item> for any burst, no more than \<open>R\<close> calls of the window are allowed.
\<close>

theorem Allow_window_quota:
  assumes "case visitors rl ip of None \<Rightarrow> True
           | Some v \<Rightarrow> window rl < Sub t0 (windowStart v)"
    and "1 \<le> sint (rate rl)"
    and "\<forall>u \<in> set us. 0 \<le> Sub u t0 \<and> Sub u t0 \<le> window rl"
  shows "(sint (rate rl) \<le> sint (burst rl) \<and> sint (burst rl) \<le> 2 ^ 61
            \<and> length us = nat (sint (rate rl)) \<longrightarrow>
            fst (AllowAll (t0 # us) ip rl) = replicate (nat (sint (rate rl))) True @ [False])
     \<and> int (length (filter (\<lambda>ok. ok) (fst (AllowAll (t0 # us) ip rl)))) \<le> sint (rate rl)"
proof -
  from Allow_window_start [OF assms(1)] obtain v1 where
    first: "Allow t0 ip rl = (True, setVisitor ip v1 rl)" and ws: "windowStart v1 = t0"
    and rc: "requestCount v1 = 1" and tk: "tokens v1 = burst rl - 1" by blast
  define rl1 where "rl1 = setVisitor ip v1 rl"
  have vis: "visitors rl1 ip = Some v1" by (simp add: rl1_def)
  have all: "fst (AllowAll (t0 # us) ip rl) = True # fst (AllowAll us ip rl1)"
    using first by (simp add: split_beta rl1_def)
  have cap: "int (length (filter (\<lambda>ok. ok) (fst (AllowAll (t0 # us) ip rl)))) \<le> sint (rate rl)"
  proof -
    have "int (length (filter (\<lambda>ok. ok) (fst (AllowAll us ip rl1))))
            \<le> max 0 (sint (rate rl1) - sint (requestCount v1))"
      using vis
    proof (rule AllowAll_cap)
      show "\<forall>u \<in> set us. \<not> window rl1 < Sub u (windowStart v1)"
        using assms(3) by (auto simp: ws rl1_def)
    qed
    with assms(2) show ?thesis unfolding all by (simp add: rc rl1_def)
  qed
  have quota: "fst (AllowAll (t0 # us) ip rl) = replicate (nat (sint (rate rl))) True @ [False]"
    if le: "sint (rate rl) \<le> sint (burst rl)" and small: "sint (burst rl) \<le> 2 ^ 61"
      and len: "length us = nat (sint (rate rl))"
  proof -
    from len assms(2) have "us \<noteq> []" by auto
    then obtain ws' t where us: "us = ws' @ [t]" by (metis rev_exhaust)
    with len assms(2) have k: "int (length ws') = sint (rate rl) - 1" by simp
    have tk1: "sint (tokens v1) = sint (burst rl) - 1"
    proof -
      have "sint (burst rl - 1) = sint (burst rl) - sint (1 :: 64 word)"
        using le assms(2) sint_lt [of "burst rl"] by (intro sint_sub_64) simp_all
      then show ?thesis by (simp add: tk)
    qed
    have "\<exists>v'. AllowAll ws' ip rl1 = (replicate (length ws') True, setVisitor ip v' rl1)
           \<and> windowStart v' = windowStart v1
           \<and> sint (requestCount v') = sint (requestCount v1) + int (length ws')"
      using vis
    proof (rule AllowAll_all_allowed)
      show "\<forall>u \<in> set ws'.
          0 \<le> Sub u (windowStart v1) \<and> Sub u (windowStart v1) \<le> window rl1"
        using assms(3) by (simp add: us ws rl1_def)
      show "int (length ws') \<le> sint (tokens v1)" using k le by (simp add: tk1)
      show "sint (tokens v1) \<le> sint (burst rl1)" by (simp add: tk1 rl1_def)
      show "sint (burst rl1) \<le> 2 ^ 61" using small by (simp add: rl1_def)
      show "sint (requestCount v1) + int (length ws') \<le> sint (rate rl1)"
        using k by (simp add: rc rl1_def)
    qed
    then obtain v' where run: "AllowAll ws' ip rl1 =
        (replicate (length ws') True, setVisitor ip v' rl1)"
      and ws': "windowStart v' = t0" and rc': "sint (requestCount v') = sint (rate rl)"
      using ws rc k by auto
    have inwin: "\<not> window (setVisitor ip v' rl1) < Sub t (windowStart v')"
      using assms(3) by (simp add: us ws' rl1_def)
    have "visitors (setVisitor ip v' rl1) ip = Some v'" by simp
    from Allow_in_window [OF this inwin]
    have last: "fst (Allow t ip (setVisitor ip v' rl1)) = False"
      by (simp add: rc' rl1_def word_sle_eq)
    have "fst (AllowAll us ip rl1) = replicate (length ws') True @ [False]"
      unfolding us AllowAll_append using run last by (simp add: split_beta)
    moreover from k assms(2) have "Suc (length ws') = nat (sint (rate rl))" by linarith
    ultimately show ?thesis
      unfolding all by (simp flip: replicate_Suc)
  qed
  from cap quota show ?thesis by blast
qed

theorem Allow_window_quota_witness:
  "(case visitors (NewRateLimiter 2 3 60000000000) ''10.0.0.1'' of None \<Rightarrow> True
    | Some v \<Rightarrow> window (NewRateLimiter 2 3 60000000000) < Sub 0 (windowStart v))
   \<and> 1 \<le> sint (2 :: 64 word) \<and> sint (2 :: 64 word) \<le> sint (3 :: 64 word)
   \<and> sint (3 :: 64 word) \<le> 2 ^ 61
   \<and> 0 \<le> Sub 10000000000 0 \<and> Sub 10000000000 0 \<le> 60000000000
   \<and> 0 \<le> Sub 60000000000 0 \<and> Sub 60000000000 0 \<le> 60000000000
   \<and> fst (AllowAll [0, 10000000000, 60000000000] ''10.0.0.1''
           (NewRateLimiter 2 3 60000000000)) = [True, True, False]"
proof -
  have h1: "case visitors (NewRateLimiter 2 3 60000000000) ''10.0.0.1'' of None \<Rightarrow> True
    | Some v \<Rightarrow> window (NewRateLimiter 2 3 60000000000) < Sub 0 (windowStart v)"
    by (simp add: NewRateLimiter_def)
  have h2: "1 \<le> sint (rate (NewRateLimiter 2 3 60000000000))" by (simp add: NewRateLimiter_def)
  have s: "Sub 10000000000 0 = 10000000000" "Sub 60000000000 0 = 60000000000"
    by (simp_all add: Sub_def minDuration_def maxDuration_def)
  have h3: "\<forall>u \<in> set [10000000000, 60000000000].
      0 \<le> Sub u 0 \<and> Sub u 0 \<le> window (NewRateLimiter 2 3 60000000000)"
    by (simp add: s NewRateLimiter_def)
  from Allow_window_quota [OF h1 h2 h3] h1 show ?thesis
    by (simp add: s NewRateLimiter_def numeral_2_eq_2)
qed

section \<open>The store: lemmas\<close>

lemma appendPending_eq: "appendPending now urls rs = rs @ map (pendingResult now) urls"
  by (induction urls arbitrary: rs) simp_all

lemma removeOld_eq:
  "removeOld now ttl rs (acc, c) =
     (acc @ filter (\<lambda>r. Sub now (CreatedAt r) < ttl) rs,
      c + int (length (filter (\<lambda>r. \<not> Sub now (CreatedAt r) < ttl) rs)))"
  by (induction rs arbitrary: acc c) simp_all

lemma length_filter_split:
  "length (filter P xs) + length (filter (\<lambda>x. \<not> P x) xs) = length xs"
  by (induction xs) simp_all

lemma Sub_antimono: "u \<le> u' \<Longrightarrow> Sub t u' \<le> Sub t u"
  by (simp add: Sub_def minDuration_def maxDuration_def)

lemma filter_upclosed_suffix:
  assumes "sorted (map f xs)" and "\<And>a b. P a \<Longrightarrow> f a \<le> f b \<Longrightarrow> P b"
  shows "filter P xs = drop (length xs - length (filter P xs)) xs"
  using assms(1)
proof (induction xs)
  case Nil
  then show ?case by simp
next
  case (Cons x xs)
  show ?case
  proof (cases "P x")
    case True
    with Cons.prems assms(2) have "\<forall>y\<in>set xs. P y" by auto
    then have "filter P xs = xs" by simp
    with True show ?thesis by simp
  next
    case False
    from Cons have ih: "filter P xs = drop (length xs - length (filter P xs)) xs" by simp
    have le: "length (filter P xs) \<le> length xs" by simp
    then have "Suc (length xs) - length (filter P xs) = Suc (length xs - length (filter P xs))"
      by (rule Suc_diff_le)
    with False ih show ?thesis by simp
  qed
qed

lemma countResults_fields:
  "TotalURLs (countResults rs r) = TotalURLs r \<and>
   Results (countResults rs r) = Results r \<and>
   LastSubmission (countResults rs r) = LastSubmission r \<and>
   SuccessCount (countResults rs r) =
     SuccessCount r + int (length (filter (\<lambda>x. Status x = ''success'') rs)) \<and>
   FailedCount (countResults rs r) =
     FailedCount r + int (length (filter (\<lambda>x. Status x = ''failed'') rs)) \<and>
   PendingCount (countResults rs r) =
     PendingCount r + int (length (filter (\<lambda>x. Status x = ''pending'') rs))"
  by (induction rs arbitrary: r) simp_all

lemma count3:
  "length (filter (\<lambda>x. Status x = ''success'') rs)
   + length (filter (\<lambda>x. Status x = ''failed'') rs)
   + length (filter (\<lambda>x. Status x = ''pending'') rs)
   = length (filter (\<lambda>x. Status x = ''pending'' \<or> Status x = ''success'' \<or> Status x = ''failed'') rs)"
  by (induction rs) auto

lemma filter_all_iff: "length (filter P xs) = length xs \<longleftrightarrow> (\<forall>x\<in>set xs. P x)"
  by (metis filter_id_conv length_filter_less less_irrefl_nat)

lemma cleanup_cases:
  "cleanupOldResults now fs =
     (let kept = filter (\<lambda>r. Sub now (CreatedAt r) < ResultTTL (config fs)) (results fs);
          maxResults = MaxResultsInMemory (config fs);
          final = (if maxResults < int (length kept)
                   then drop (nat (int (length kept) - maxResults)) kept else kept);
          cleaned = int (length (results fs)) - int (length kept)
                    + (if maxResults < int (length kept) then int (length kept) - maxResults else 0)
      in if maxResults < 0 then Inl SliceBoundsOutOfRange
         else if 0 < cleaned then
           Inr (fs\<lparr>results := final,
                  cleanupStats := (cleanupStats fs)
                    \<lparr>LastCleanup := now,
                     TotalCleaned := TotalCleaned (cleanupStats fs) + cleaned,
                     CleanupCount := CleanupCount (cleanupStats fs) + 1,
                     ResultsInMemory := int (length final)\<rparr>\<rparr>)
         else Inr fs)"
proof -
  let ?P = "\<lambda>r. Sub now (CreatedAt r) < ResultTTL (config fs)"
  have n: "int (length (filter (\<lambda>r. \<not> ?P r) (results fs))) =
           int (length (results fs)) - int (length (filter ?P (results fs)))"
    using length_filter_split [of ?P "results fs"] by linarith
  show ?thesis
    unfolding cleanupOldResults_def removeOld_eq n
    by (simp add: Let_def)
qed

lemma filter_same_length: "length (filter P xs) = length xs \<Longrightarrow> filter P xs = xs"
  by (metis filter_all_iff filter_True)

lemma cleanup_results:
  assumes "cleanupOldResults now fs = Inr fs'"
  shows "\<exists>n. results fs' =
           drop n (filter (\<lambda>r. Sub now (CreatedAt r) < ResultTTL (config fs)) (results fs))"
proof -
  let ?kept = "filter (\<lambda>r. Sub now (CreatedAt r) < ResultTTL (config fs)) (results fs)"
  let ?m = "MaxResultsInMemory (config fs)"
  let ?cleaned = "int (length (results fs)) - int (length ?kept)
                    + (if ?m < int (length ?kept) then int (length ?kept) - ?m else 0)"
  have le: "length ?kept \<le> length (results fs)" by simp
  show ?thesis
  proof (cases "0 < ?cleaned")
    case True
    with assms have "results fs' =
        (if ?m < int (length ?kept) then drop (nat (int (length ?kept) - ?m)) ?kept else ?kept)"
      by (auto simp: cleanup_cases Let_def split: if_splits)
    then show ?thesis by (metis drop0)
  next
    case False
    with assms have same: "fs' = fs"
      by (auto simp: cleanup_cases Let_def split: if_splits)
    have "length ?kept = length (results fs)"
    proof (cases "?m < int (length ?kept)")
      case over: True
      with False have "\<not> 0 < int (length (results fs)) - int (length ?kept)
          + (int (length ?kept) - ?m)" by simp
      with over le show ?thesis by linarith
    next
      case under: False
      with False have "\<not> 0 < int (length (results fs)) - int (length ?kept)" by simp
      with le show ?thesis by linarith
    qed
    then have "?kept = results fs" by (rule filter_same_length)
    with same show ?thesis by (metis drop0)
  qed
qed

lemma sorted_take_le_drop:
  assumes "sorted (map f xs)"
  shows "\<forall>d \<in> set (take n xs). \<forall>k \<in> set (drop n xs). f d \<le> f k"
proof -
  have "sorted (map f (take n xs) @ map f (drop n xs))"
    using assms by (metis append_take_drop_id map_append)
  then show ?thesis by (auto simp: sorted_append)
qed

lemma GetResults_fields:
  "TotalURLs (GetResults fs) = int (length (results fs)) \<and>
   Results (GetResults fs) = results fs \<and>
   LastSubmission (GetResults fs) = lastSubmission fs \<and>
   SuccessCount (GetResults fs) = int (length (filter (\<lambda>x. Status x = ''success'') (results fs))) \<and>
   FailedCount (GetResults fs) = int (length (filter (\<lambda>x. Status x = ''failed'') (results fs))) \<and>
   PendingCount (GetResults fs) = int (length (filter (\<lambda>x. Status x = ''pending'') (results fs)))"
  unfolding GetResults_def by (simp add: countResults_fields)

lemma GetResults_total_iff:
  "TotalURLs (GetResults fs) =
     SuccessCount (GetResults fs) + FailedCount (GetResults fs) + PendingCount (GetResults fs)
   \<longleftrightarrow> (\<forall>r \<in> set (results fs).
          Status r = ''pending'' \<or> Status r = ''success'' \<or> Status r = ''failed'')"
proof -
  let ?K = "\<lambda>x. Status x = ''pending'' \<or> Status x = ''success'' \<or> Status x = ''failed''"
  have sum: "SuccessCount (GetResults fs) + FailedCount (GetResults fs)
      + PendingCount (GetResults fs) = int (length (filter ?K (results fs)))"
    using count3 [of "results fs"] by (simp only: GetResults_fields)
  have total: "TotalURLs (GetResults fs) = int (length (results fs))"
    by (simp only: GetResults_fields)
  have "int (length (results fs)) = int (length (filter ?K (results fs)))
      \<longleftrightarrow> length (filter ?K (results fs)) = length (results fs)"
    by linarith
  then show ?thesis
    unfolding sum total using filter_all_iff [of ?K "results fs"] by (rule trans)
qed

lemma updateResult_member:
  assumes "x \<in> set (results (updateResult index r fs))"
  shows "x \<in> set (results fs) \<or> Status x = Status r"
proof (cases "0 \<le> index \<and> index < int (length (results fs))")
  case True
  with assms have "x \<in> set ((results fs)
      [nat index := r\<lparr>CreatedAt := CreatedAt (results fs ! nat index)\<rparr>])"
    by (simp add: updateResult_def)
  then have "x \<in> insert (r\<lparr>CreatedAt := CreatedAt (results fs ! nat index)\<rparr>) (set (results fs))"
    by (rule set_update_subset_insert [THEN subsetD])
  then have "x = r\<lparr>CreatedAt := CreatedAt (results fs ! nat index)\<rparr> \<or> x \<in> set (results fs)"
    by (rule insertE) simp_all
  then show ?thesis
  proof
    assume "x = r\<lparr>CreatedAt := CreatedAt (results fs ! nat index)\<rparr>"
    then have "Status x = Status r" by simp
    then show ?thesis ..
  next
    assume "x \<in> set (results fs)"
    then show ?thesis ..
  qed
next
  case False
  then have "updateResult index r fs = fs" by (auto simp: updateResult_def)
  with assms show ?thesis by simp
qed

lemma fetchURL_writes:
  assumes "fetchURL env index fs = Inr fs'"
  shows "\<exists>r. (Status r = ''failed'' \<or> Status r = ''success'') \<and> fs' = updateResult index r fs"
proof (cases "index < 0 \<or> int (length (results fs)) \<le> index")
  case True
  with assms show ?thesis by (simp add: fetchURL_def)
next
  case inrange: False
  show ?thesis
  proof (cases "URL (results fs ! nat index) = []")
    case True
    with inrange assms have "fs' = updateResult index
        (zeroResult\<lparr>URL := URL (results fs ! nat index), Status := ''failed'',
           Error := ''URL is empty'', Duration := elapsed env\<rparr>) fs"
      by (simp add: fetchURL_def Let_def)
    then show ?thesis by - (rule exI, rule conjI [rotated], assumption, simp)
  next
    case url: False
    show ?thesis
    proof (cases "transport env")
      case (RequestError msg)
      with inrange url assms show ?thesis
        unfolding fetchURL_def Let_def
        by (simp only: if_False transport.case sum.inject) (rule exI, rule conjI [rotated], erule sym, simp)
    next
      case (DoError msg deadline n)
      with inrange url assms show ?thesis
        unfolding fetchURL_def Let_def
        by (simp only: if_False transport.case sum.inject) (rule exI, rule conjI [rotated], erule sym, simp)
    next
      case (DoResponse code final n body err)
      show ?thesis
      proof (cases err)
        case None
        show ?thesis
        proof (cases "MaxContentSize (config fs) \<le> int (length body)")
          case True
          with None DoResponse inrange url assms show ?thesis
            unfolding fetchURL_def Let_def
            by (simp only: if_False if_True transport.case option.case sum.inject)
              (rule exI, rule conjI [rotated], erule sym, simp)
        next
          case False
          with None DoResponse inrange url assms show ?thesis
            unfolding fetchURL_def Let_def
            by (simp only: if_False if_True transport.case option.case sum.inject)
              (rule exI, rule conjI [rotated], erule sym, simp)
        qed
      next
        case (Some msg)
        with DoResponse inrange url assms show ?thesis
          unfolding fetchURL_def Let_def
          by (simp only: if_False if_True transport.case option.case sum.inject)
            (rule exI, rule conjI [rotated], erule sym, simp)
      qed
    qed
  qed
qed

lemma reachable_statuses:
  assumes "reachable fs"
  shows "\<forall>r \<in> set (results fs).
           Status r = ''pending'' \<or> Status r = ''success'' \<or> Status r = ''failed''"
  using assms
proof (induction rule: reachable.induct)
  case (init cfg rl)
  show ?case by (simp add: NewFetchService_def)
next
  case (submit fs t0 now urls)
  then show ?case
    by (auto simp: SubmitURLs_def Let_def appendPending_eq pendingResult_def)
next
  case (fetch fs env index fs')
  from fetchURL_writes [OF fetch.hyps(2)] obtain r
    where r: "Status r = ''failed'' \<or> Status r = ''success''"
      and fs': "fs' = updateResult index r fs" by blast
  show ?case
  proof
    fix x assume "x \<in> set (results fs')"
    with fs' have "x \<in> set (results fs) \<or> Status x = Status r"
      using updateResult_member [of x index r fs] by simp
    with r fetch.IH
    show "Status x = ''pending'' \<or> Status x = ''success'' \<or> Status x = ''failed''"
      by auto
  qed
next
  case (deferred fs result index)
  show ?case
  proof
    fix x assume "x \<in> set (results (updateResult index result fs))"
    then have "x \<in> set (results fs) \<or> Status x = Status result"
      by (rule updateResult_member)
    with deferred.hyps(2) deferred.IH
    show "Status x = ''pending'' \<or> Status x = ''success'' \<or> Status x = ''failed''"
      by auto
  qed
next
  case (cleanup fs now fs')
  from cleanup_results [OF cleanup.hyps(2)] obtain n where
    "results fs' = drop n (filter (\<lambda>r. Sub now (CreatedAt r) < ResultTTL (config fs)) (results fs))"
    by blast
  then have "set (results fs') \<subseteq> set (results fs)"
    by (metis (no_types, lifting) filter_is_subset set_drop_subset subset_trans)
  with cleanup.IH show ?case by blast
next
  case (clear fs)
  show ?case by (simp add: ClearAllResults_def Let_def)
qed

section \<open>The examples: lemmas\<close>

lemma exampleStore_results:
  "results exampleStore =
     [pendingResult 8 ''https://a.test'', pendingResult 8 [], pendingResult 8 ''https://b.test'']"
  by (simp add: exampleStore_def exampleService_def SubmitURLs_def NewFetchService_def Let_def)

lemma exampleStore_config: "config exampleStore = exampleConfig"
  by (simp add: exampleStore_def exampleService_def SubmitURLs_def NewFetchService_def Let_def)

lemma exampleAged_results:
  "results exampleAged =
     [pendingResult 0 ''a'', pendingResult 50 ''b'', pendingResult 90 ''c'',
      pendingResult 110 ''d'']"
  by (simp add: exampleAged_def exampleService_def SubmitURLs_def NewFetchService_def Let_def)

lemma exampleAged_config: "config exampleAged = exampleConfig"
  by (simp add: exampleAged_def exampleService_def SubmitURLs_def NewFetchService_def Let_def)

lemma exampleAged_stats: "cleanupStats exampleAged = zeroStats"
  by (simp add: exampleAged_def exampleService_def SubmitURLs_def NewFetchService_def Let_def)

lemma reachable_exampleStore: "reachable exampleStore"
  unfolding exampleStore_def exampleService_def
  by (intro reachable.submit reachable.init)

lemma exampleAged_sweep: "cleanupOldResults 120 exampleAged = Inr exampleSwept"
proof -
  have ages: "Sub 120 0 = 120" "Sub 120 50 = 70" "Sub 120 90 = 30" "Sub 120 110 = 10"
    by (simp_all add: Sub_def minDuration_def maxDuration_def)
  have kept: "filter (\<lambda>r. Sub 120 (CreatedAt r) < ResultTTL (config exampleAged))
      (results exampleAged) =
      [pendingResult 50 ''b'', pendingResult 90 ''c'', pendingResult 110 ''d'']"
    by (simp add: exampleAged_results exampleAged_config exampleConfig_def pendingResult_def
        ages)
  show ?thesis
    unfolding cleanup_cases kept Let_def
    by (simp add: exampleAged_results exampleAged_config exampleAged_stats exampleConfig_def
        zeroStats_def exampleSwept_def)
qed

lemma exampleSwept_results:
  "results exampleSwept = [pendingResult 90 ''c'', pendingResult 110 ''d'']"
  by (simp add: exampleSwept_def)

lemma exampleSwept_config: "config exampleSwept = exampleConfig"
  by (simp add: exampleSwept_def exampleAged_config)

lemma example_ages:
  "Sub 120 0 = 120" "Sub 120 50 = 70" "Sub 120 90 = 30" "Sub 120 110 = 10"
  "Sub 130 90 = 40" "Sub 130 110 = 20"
  by (simp_all add: Sub_def minDuration_def maxDuration_def)

lemma exampleStore_fetch0:
  "fetchURL exampleOK 0 exampleStore =
     Inr (updateResult 0
          (zeroResult\<lparr>URL := ''https://a.test'', Status := ''success'', Content := ''hi'',
             ContentLength := 2, StatusCode := 200, FetchedAt := 30, Duration := ''12ms'',
             FinalURL := ''https://a.test'', RedirectCount := 0\<rparr>)
          exampleStore)"
  by (simp add: fetchURL_def exampleStore_results exampleStore_config exampleConfig_def
      exampleOK_def pendingResult_def Let_def)

lemma exampleStore_fetch1:
  "fetchURL exampleOK 1
     (updateResult 0
          (zeroResult\<lparr>URL := ''https://a.test'', Status := ''success'', Content := ''hi'',
             ContentLength := 2, StatusCode := 200, FetchedAt := 30, Duration := ''12ms'',
             FinalURL := ''https://a.test'', RedirectCount := 0\<rparr>)
          exampleStore) = Inr exampleFetched"
  by (simp add: fetchURL_def exampleFetched_def exampleStore_results exampleOK_def
      pendingResult_def Let_def updateResult_def)

lemma reachable_exampleFetched: "reachable exampleFetched"
  using reachable.fetch [OF reachable.fetch [OF reachable_exampleStore exampleStore_fetch0]
      exampleStore_fetch1] .

lemma exampleFetched_statuses:
  "map Status (results exampleFetched) = [''success'', ''failed'', ''pending'']"
  by (simp add: exampleFetched_def exampleStore_results updateResult_def pendingResult_def)





section \<open>The counters of a snapshot\<close>

text \<open>
  C2. In every state of the store that the public operations reach (submissions, the
  updates of the fetch tasks, sweeps and clears), the snapshot of \<^verbatim>\<open>GetResults\<close> has
  \<open>total_urls = success_count + failed_count + pending_count\<close>, and every stored entry
  has one of the statuses pending, success and failed; the snapshot lists exactly the
  stored entries.
\<close>

theorem reachable_counts_add_up:
  assumes "reachable fs"
  shows "TotalURLs (GetResults fs) =
           SuccessCount (GetResults fs) + FailedCount (GetResults fs)
           + PendingCount (GetResults fs)
    \<and> (\<forall>r \<in> set (results fs). Status r \<in> {''pending'', ''success'', ''failed''})
    \<and> TotalURLs (GetResults fs) = int (length (Results (GetResults fs)))
    \<and> Results (GetResults fs) = results fs"
  using reachable_statuses [OF assms] GetResults_total_iff [of fs]
  by (simp add: GetResults_fields)

theorem reachable_counts_add_up_witness:
  "reachable exampleFetched
   \<and> map Status (results exampleFetched) = [''success'', ''failed'', ''pending'']
   \<and> TotalURLs (GetResults exampleFetched) = 3
   \<and> TotalURLs (GetResults exampleFetched) =
       SuccessCount (GetResults exampleFetched) + FailedCount (GetResults exampleFetched)
       + PendingCount (GetResults exampleFetched)"
proof -
  have "TotalURLs (GetResults exampleFetched) = int (length (map Status (results exampleFetched)))"
    by (simp add: GetResults_fields)
  then have "TotalURLs (GetResults exampleFetched) = 3"
    unfolding exampleFetched_statuses by simp
  with reachable_counts_add_up [OF reachable_exampleFetched] reachable_exampleFetched
    exampleFetched_statuses
  show ?thesis by blast
qed

section \<open>updateResult and the creation time\<close>

text \<open>
  What \<^verbatim>\<open>updateResult\<close> does: in range it stores the outcome with the \<open>CreatedAt\<close> that
  the entry at that index had before, so no write ever changes the creation time found at
  a position; and a write at the position of a task, into the store in which the task was
  started, leaves the creation time that \<^verbatim>\<open>SubmitURLs\<close> assigned.
\<close>

lemma updateResult_in_range:
  assumes "0 \<le> index" and "index < int (length (results fs))"
  shows "results (updateResult index result fs) =
           (results fs)[nat index := result\<lparr>CreatedAt := CreatedAt (results fs ! nat index)\<rparr>]
       \<and> results (updateResult index result fs) ! nat index =
           result\<lparr>CreatedAt := CreatedAt (results fs ! nat index)\<rparr>"
proof -
  from assms have "nat index < length (results fs)" by linarith
  with assms show ?thesis by (simp add: updateResult_def)
qed

lemma updateResult_CreatedAt:
  "map CreatedAt (results (updateResult index result fs)) = map CreatedAt (results fs)"
proof (cases "0 \<le> index \<and> index < int (length (results fs))")
  case True
  then have n: "nat index < length (results fs)" by linarith
  from True have "map CreatedAt (results (updateResult index result fs)) =
      (map CreatedAt (results fs))[nat index := CreatedAt (results fs ! nat index)]"
    by (simp add: updateResult_def map_update)
  also from n have "\<dots> = map CreatedAt (results fs)"
    by (metis list_update_id nth_map)
  finally show ?thesis .
next
  case False
  then show ?thesis by (auto simp: updateResult_def)
qed

lemma task_without_interleaving:
  assumes "i < length urls"
  shows "taskIndex (SubmitURLs t0 now urls fs) urls i = int (length (results fs)) + int i
       \<and> results (SubmitURLs t0 now urls fs) ! nat (taskIndex (SubmitURLs t0 now urls fs) urls i) =
           pendingResult now (urls ! i)
       \<and> CreatedAt (results (updateResult (taskIndex (SubmitURLs t0 now urls fs) urls i) result
                       (SubmitURLs t0 now urls fs))
                     ! nat (taskIndex (SubmitURLs t0 now urls fs) urls i)) = now"
  using assms
  by (simp add: SubmitURLs_def taskIndex_def appendPending_eq updateResult_def nth_append
      pendingResult_def nat_add_distrib)


section \<open>The capacity ceiling\<close>

text \<open>
  C4. Let the entries be in the order of their creation times and let the capacity
  ceiling \<open>C = MaxResultsInMemory\<close> be a count (\<open>0 \<le> C\<close>). If more than \<open>C\<close> entries
  are younger than the TTL, the sweep returns, keeps exactly the last \<open>C\<close> entries of the
  store, none of them created before a discarded one, and adds to \<open>TotalCleaned\<close> the
  number of all discarded entries, the expired ones plus the surplus.
\<close>

theorem cleanup_keeps_most_recent:
  assumes "sorted (map CreatedAt (results fs))"
    and "0 \<le> MaxResultsInMemory (config fs)"
    and "MaxResultsInMemory (config fs) <
           int (length (filter (\<lambda>r. Sub now (CreatedAt r) < ResultTTL (config fs)) (results fs)))"
  shows "\<exists>fs'. cleanupOldResults now fs = Inr fs'
     \<and> int (length (results fs')) = MaxResultsInMemory (config fs)
     \<and> results fs' =
         drop (length (results fs) - nat (MaxResultsInMemory (config fs))) (results fs)
     \<and> (\<forall>d \<in> set (take (length (results fs) - nat (MaxResultsInMemory (config fs)))
                      (results fs)).
          \<forall>k \<in> set (results fs'). CreatedAt d \<le> CreatedAt k)
     \<and> TotalCleaned (cleanupStats fs') =
         TotalCleaned (cleanupStats fs)
         + (int (length (results fs)) - MaxResultsInMemory (config fs))
     \<and> int (length (results fs)) - MaxResultsInMemory (config fs) =
         int (length (filter (\<lambda>r. \<not> Sub now (CreatedAt r) < ResultTTL (config fs))
                (results fs)))
         + (int (length (filter (\<lambda>r. Sub now (CreatedAt r) < ResultTTL (config fs))
                (results fs)))
            - MaxResultsInMemory (config fs))
     \<and> CleanupCount (cleanupStats fs') = CleanupCount (cleanupStats fs) + 1
     \<and> ResultsInMemory (cleanupStats fs') = MaxResultsInMemory (config fs)
     \<and> LastCleanup (cleanupStats fs') = now"
proof -
  let ?P = "\<lambda>r. Sub now (CreatedAt r) < ResultTTL (config fs)"
  let ?rs = "results fs"
  let ?m = "MaxResultsInMemory (config fs)"
  define kept where "kept = filter ?P ?rs"
  define final where "final = drop (nat (int (length kept) - ?m)) kept"
  have le: "length kept \<le> length ?rs" by (simp add: kept_def)
  have over: "?m < int (length kept)" using assms(3) by (simp add: kept_def)
  have up: "?P b" if "?P a" and "CreatedAt a \<le> CreatedAt b" for a b :: FetchResult
    using that Sub_antimono [of "CreatedAt a" "CreatedAt b" now] by linarith
  have suffix: "kept = drop (length ?rs - length kept) ?rs"
    unfolding kept_def using assms(1) up by (rule filter_upclosed_suffix)
  have "final = drop (nat (int (length kept) - ?m) + (length ?rs - length kept)) ?rs"
    unfolding final_def by (subst suffix) simp
  moreover have "nat (int (length kept) - ?m) + (length ?rs - length kept) =
      length ?rs - nat ?m"
    using le over assms(2) by linarith
  ultimately have final: "final = drop (length ?rs - nat ?m) ?rs" by simp
  have len: "int (length final) = ?m"
    unfolding final_def using over assms(2) by simp
  have split: "int (length (filter (\<lambda>r. \<not> ?P r) ?rs)) = int (length ?rs) - int (length kept)"
    unfolding kept_def using length_filter_split [of ?P ?rs] by linarith
  have pos: "0 < int (length ?rs) - int (length kept) + (int (length kept) - ?m)"
    using le over by linarith
  define fs' where "fs' = fs\<lparr>results := final,
      cleanupStats := (cleanupStats fs)
        \<lparr>LastCleanup := now,
         TotalCleaned := TotalCleaned (cleanupStats fs)
           + (int (length ?rs) - int (length kept) + (int (length kept) - ?m)),
         CleanupCount := CleanupCount (cleanupStats fs) + 1,
         ResultsInMemory := int (length final)\<rparr>\<rparr>"
  have run: "cleanupOldResults now fs = Inr fs'"
    using over pos assms(2)
    by (simp add: cleanup_cases Let_def kept_def [symmetric] final_def [symmetric] fs'_def)
  have r: "results fs' = final" by (simp add: fs'_def)
  have older: "\<forall>d \<in> set (take (length ?rs - nat ?m) ?rs).
      \<forall>k \<in> set (results fs'). CreatedAt d \<le> CreatedAt k"
    unfolding r final using assms(1) by (rule sorted_take_le_drop)
  have "int (length (results fs')) = ?m" using r len by simp
  moreover have "results fs' = drop (length ?rs - nat ?m) ?rs" using r final by simp
  moreover have "TotalCleaned (cleanupStats fs') =
      TotalCleaned (cleanupStats fs) + (int (length ?rs) - ?m)"
    by (simp add: fs'_def)
  moreover have "int (length ?rs) - ?m =
      int (length (filter (\<lambda>r. \<not> ?P r) ?rs)) + (int (length (filter ?P ?rs)) - ?m)"
    using split by (simp add: kept_def)
  moreover have "CleanupCount (cleanupStats fs') = CleanupCount (cleanupStats fs) + 1"
    by (simp add: fs'_def)
  moreover have "ResultsInMemory (cleanupStats fs') = ?m"
    using len by (simp add: fs'_def)
  moreover have "LastCleanup (cleanupStats fs') = now" by (simp add: fs'_def)
  ultimately show ?thesis using run older by blast
qed

theorem cleanup_keeps_most_recent_witness:
  "sorted (map CreatedAt (results exampleAged))
   \<and> 0 \<le> MaxResultsInMemory (config exampleAged)
   \<and> MaxResultsInMemory (config exampleAged) <
       int (length (filter (\<lambda>r. Sub 120 (CreatedAt r) < ResultTTL (config exampleAged))
              (results exampleAged)))
   \<and> cleanupOldResults 120 exampleAged = Inr exampleSwept
   \<and> int (length (results exampleSwept)) = 2
   \<and> results exampleSwept = drop 2 (results exampleAged)
   \<and> TotalCleaned (cleanupStats exampleSwept) = TotalCleaned (cleanupStats exampleAged) + 2"
proof -
  have h1: "sorted (map CreatedAt (results exampleAged))"
    by (simp add: exampleAged_results pendingResult_def)
  have h2: "0 \<le> MaxResultsInMemory (config exampleAged)"
    by (simp add: exampleAged_config exampleConfig_def)
  have h3: "MaxResultsInMemory (config exampleAged) <
       int (length (filter (\<lambda>r. Sub 120 (CreatedAt r) < ResultTTL (config exampleAged))
              (results exampleAged)))"
    by (simp add: exampleAged_results exampleAged_config exampleConfig_def pendingResult_def
        example_ages)
  have m: "MaxResultsInMemory (config exampleAged) = 2"
    by (simp add: exampleAged_config exampleConfig_def)
  have n: "length (results exampleAged) = 4" by (simp add: exampleAged_results)
  have k: "length (results exampleAged) - nat 2 = 2"
    and k': "int (length (results exampleAged)) - 2 = 2"
    by (simp_all add: n)
  from cleanup_keeps_most_recent [OF h1 h2 h3] exampleAged_sweep
  have f: "int (length (results exampleSwept)) = MaxResultsInMemory (config exampleAged)
     \<and> results exampleSwept =
         drop (length (results exampleAged) - nat (MaxResultsInMemory (config exampleAged)))
           (results exampleAged)
     \<and> TotalCleaned (cleanupStats exampleSwept) =
         TotalCleaned (cleanupStats exampleAged)
         + (int (length (results exampleAged)) - MaxResultsInMemory (config exampleAged))"
    by (elim exE conjE) simp
  from f [unfolded m k k'] h1 h2 h3 exampleAged_sweep show ?thesis by blast
qed

section \<open>The sweep removes the expired entries\<close>

text \<open>
  C5. A sweep at the time \<open>now\<close> that returns leaves no entry whose age
  \<open>now - CreatedAt\<close> exceeds the TTL (every entry left is younger than the TTL), and the
  entries left are a subsequence of the entries before, in their order. The sweep
  returns whenever \<open>MaxResultsInMemory\<close> is not negative.
\<close>

theorem cleanup_removes_expired:
  "(0 \<le> MaxResultsInMemory (config fs) \<longrightarrow> (\<exists>fs'. cleanupOldResults now fs = Inr fs'))
   \<and> (\<forall>fs'. cleanupOldResults now fs = Inr fs' \<longrightarrow>
         (\<forall>r \<in> set (results fs'). \<not> ResultTTL (config fs) < Sub now (CreatedAt r))
         \<and> (\<forall>r \<in> set (results fs'). Sub now (CreatedAt r) < ResultTTL (config fs))
         \<and> subseq (results fs') (results fs))"
proof (intro conjI impI allI)
  assume "0 \<le> MaxResultsInMemory (config fs)"
  then show "\<exists>fs'. cleanupOldResults now fs = Inr fs'"
    by (simp add: cleanup_cases Let_def)
next
  fix fs' assume c: "cleanupOldResults now fs = Inr fs'"
  let ?P = "\<lambda>r. Sub now (CreatedAt r) < ResultTTL (config fs)"
  from cleanup_results [OF c] obtain n where n: "results fs' = drop n (filter ?P (results fs))"
    by blast
  have sub: "set (results fs') \<subseteq> set (filter ?P (results fs))"
    unfolding n by (rule set_drop_subset)
  from sub show young: "\<forall>r \<in> set (results fs'). Sub now (CreatedAt r) < ResultTTL (config fs)"
    by auto
  then show "\<forall>r \<in> set (results fs'). \<not> ResultTTL (config fs) < Sub now (CreatedAt r)"
    by auto
  have "subseq (drop n (filter ?P (results fs))) (filter ?P (results fs))"
    by (metis append_take_drop_id list_emb_append2 subseq_order.order_refl)
  moreover have "subseq (filter ?P (results fs)) (results fs)" by simp
  ultimately show "subseq (results fs') (results fs)"
    unfolding n by (rule subseq_order.order_trans)
qed

theorem cleanup_removes_expired_witness:
  "0 \<le> MaxResultsInMemory (config exampleAged)
   \<and> cleanupOldResults 120 exampleAged = Inr exampleSwept
   \<and> results exampleSwept = [pendingResult 90 ''c'', pendingResult 110 ''d'']
   \<and> Sub 120 (CreatedAt (pendingResult 90 ''c'')) < ResultTTL (config exampleAged)
   \<and> Sub 120 (CreatedAt (pendingResult 110 ''d'')) < ResultTTL (config exampleAged)
   \<and> subseq (results exampleSwept) (results exampleAged)"
proof -
  have h: "0 \<le> MaxResultsInMemory (config exampleAged)"
    by (simp add: exampleAged_config exampleConfig_def)
  from cleanup_removes_expired [of exampleAged 120] exampleAged_sweep
  have "(\<forall>r \<in> set (results exampleSwept). Sub 120 (CreatedAt r) < ResultTTL (config exampleAged))
      \<and> subseq (results exampleSwept) (results exampleAged)"
    by blast
  then have "Sub 120 (CreatedAt (pendingResult 90 ''c'')) < ResultTTL (config exampleAged)
      \<and> Sub 120 (CreatedAt (pendingResult 110 ''d'')) < ResultTTL (config exampleAged)
      \<and> subseq (results exampleSwept) (results exampleAged)"
    unfolding exampleSwept_results by simp
  with h exampleAged_sweep exampleSwept_results show ?thesis by blast
qed

section \<open>ClearAllResults\<close>

text \<open>
  C6. \<^verbatim>\<open>ClearAllResults\<close> on a store of \<open>n\<close> entries returns \<open>n\<close>, leaves the store
  empty, so that the next snapshot has all four counters at zero, adds \<open>n\<close> to
  \<open>TotalCleaned\<close> and sets \<open>ResultsInMemory\<close> to 0.
\<close>

theorem ClearAllResults_empties:
  "fst (ClearAllResults fs) = int (length (results fs))
   \<and> results (snd (ClearAllResults fs)) = []
   \<and> TotalURLs (GetResults (snd (ClearAllResults fs))) = 0
   \<and> SuccessCount (GetResults (snd (ClearAllResults fs))) = 0
   \<and> FailedCount (GetResults (snd (ClearAllResults fs))) = 0
   \<and> PendingCount (GetResults (snd (ClearAllResults fs))) = 0
   \<and> Results (GetResults (snd (ClearAllResults fs))) = []
   \<and> TotalCleaned (cleanupStats (snd (ClearAllResults fs))) =
       TotalCleaned (cleanupStats fs) + int (length (results fs))
   \<and> ResultsInMemory (cleanupStats (snd (ClearAllResults fs))) = 0
   \<and> ResultsInMemory (GetCleanupStats (snd (ClearAllResults fs))) = 0
   \<and> LastCleanup (cleanupStats (snd (ClearAllResults fs))) = LastCleanup (cleanupStats fs)
   \<and> CleanupCount (cleanupStats (snd (ClearAllResults fs))) = CleanupCount (cleanupStats fs)"
  by (simp add: ClearAllResults_def GetResults_def GetCleanupStats_def Let_def)

theorem ClearAllResults_empties_witness:
  "fst (ClearAllResults exampleAged) = 4
   \<and> results (snd (ClearAllResults exampleAged)) = []
   \<and> TotalURLs (GetResults (snd (ClearAllResults exampleAged))) = 0
   \<and> PendingCount (GetResults (snd (ClearAllResults exampleAged))) = 0
   \<and> TotalCleaned (cleanupStats (snd (ClearAllResults exampleAged))) = 4
   \<and> ResultsInMemory (cleanupStats (snd (ClearAllResults exampleAged))) = 0"
  using ClearAllResults_empties [of exampleAged]
  by (simp add: exampleAged_results exampleAged_stats zeroStats_def)

section \<open>A body that reaches the cap\<close>

text \<open>
  C7. A fetch of a non-empty URL receives a response with status \<open>code\<close> after
  \<open>redirects\<close> redirects, and the read of the body ends without an error of the reader
  with at least \<open>MaxContentSize\<close> bytes. Then the entry is written as failed, with the
  error "Response body too large", the status code and the redirect count observed.
\<close>

theorem fetchURL_body_too_large:
  assumes "0 \<le> index" and "index < int (length (results fs))"
    and "URL (results fs ! nat index) \<noteq> []"
    and "transport env = DoResponse code final redirects body None"
    and "MaxContentSize (config fs) \<le> int (length body)"
  shows "\<exists>fs'. fetchURL env index fs = Inr fs'
     \<and> length (results fs') = length (results fs)
     \<and> Status (results fs' ! nat index) = ''failed''
     \<and> Error (results fs' ! nat index) =
         ''Response body too large (exceeds '' @ showInt (MaxContentSize (config fs))
           @ '' bytes)''
     \<and> StatusCode (results fs' ! nat index) = code
     \<and> RedirectCount (results fs' ! nat index) = redirects
     \<and> FinalURL (results fs' ! nat index) = final
     \<and> URL (results fs' ! nat index) = URL (results fs ! nat index)
     \<and> Content (results fs' ! nat index) = []
     \<and> CreatedAt (results fs' ! nat index) = CreatedAt (results fs ! nat index)"
proof -
  from assms(1,2) have "nat index < length (results fs)" by linarith
  with assms show ?thesis
    by (simp add: fetchURL_def Let_def updateResult_def zeroResult_def)
qed

theorem fetchURL_body_too_large_witness:
  "(0::int) \<le> 2 \<and> 2 < int (length (results exampleStore))
   \<and> URL (results exampleStore ! nat 2) = ''https://b.test''
   \<and> transport exampleLarge = DoResponse 200 ''https://b.test/big'' 1 ''abcd'' None
   \<and> MaxContentSize (config exampleStore) \<le> int (length ''abcd'')
   \<and> (\<exists>fs'. fetchURL exampleLarge 2 exampleStore = Inr fs'
         \<and> Status (results fs' ! nat 2) = ''failed''
         \<and> Error (results fs' ! nat 2) = ''Response body too large (exceeds 4 bytes)''
         \<and> StatusCode (results fs' ! nat 2) = 200
         \<and> RedirectCount (results fs' ! nat 2) = 1)"
proof -
  have h1: "(0::int) \<le> 2" by simp
  have h2: "2 < int (length (results exampleStore))" by (simp add: exampleStore_results)
  have u: "URL (results exampleStore ! nat 2) = ''https://b.test''"
    by (simp add: exampleStore_results pendingResult_def numeral_2_eq_2)
  then have h3: "URL (results exampleStore ! nat 2) \<noteq> []" by simp
  have h4: "transport exampleLarge = DoResponse 200 ''https://b.test/big'' 1 ''abcd'' None"
    by (simp add: exampleLarge_def)
  have h5: "MaxContentSize (config exampleStore) \<le> int (length ''abcd'')"
    by (simp add: exampleStore_config exampleConfig_def)
  have m: "showInt (MaxContentSize (config exampleStore)) = ''4''"
    by (simp add: exampleStore_config exampleConfig_def showInt_def digits.simps)
  from fetchURL_body_too_large [OF h1 h2 h3 h4 h5]
  have "\<exists>fs'. fetchURL exampleLarge 2 exampleStore = Inr fs'
         \<and> Status (results fs' ! nat 2) = ''failed''
         \<and> Error (results fs' ! nat 2) = ''Response body too large (exceeds 4 bytes)''
         \<and> StatusCode (results fs' ! nat 2) = 200
         \<and> RedirectCount (results fs' ! nat 2) = 1"
    unfolding m by (elim exE conjE) (intro exI conjI, assumption, simp_all)
  with h1 h2 u h4 h5 show ?thesis by blast
qed

section \<open>A sweep that removes nothing\<close>

text \<open>
  C8. A sweep that returns a store with as many entries as before returns the store
  unchanged, statistics included. This is the case when every entry is younger than the
  TTL and the number of entries does not exceed \<open>MaxResultsInMemory\<close>.
\<close>

theorem cleanup_nothing_removed:
  "(cleanupOldResults now fs = Inr fs' \<and> length (results fs') = length (results fs)
      \<longrightarrow> fs' = fs)
   \<and> ((\<forall>r \<in> set (results fs). Sub now (CreatedAt r) < ResultTTL (config fs))
        \<and> int (length (results fs)) \<le> MaxResultsInMemory (config fs)
      \<longrightarrow> cleanupOldResults now fs = Inr fs
          \<and> (\<forall>fs'. cleanupOldResults now fs = Inr fs' \<longrightarrow>
                 results fs' = results fs \<and> cleanupStats fs' = cleanupStats fs))"
proof (intro conjI impI)
  let ?kept = "filter (\<lambda>r. Sub now (CreatedAt r) < ResultTTL (config fs)) (results fs)"
  let ?m = "MaxResultsInMemory (config fs)"
  assume a: "cleanupOldResults now fs = Inr fs' \<and> length (results fs') = length (results fs)"
  have le: "length ?kept \<le> length (results fs)" by simp
  show "fs' = fs"
  proof (cases "0 < int (length (results fs)) - int (length ?kept)
                    + (if ?m < int (length ?kept) then int (length ?kept) - ?m else 0)")
    case True
    with a have r: "results fs' =
        (if ?m < int (length ?kept) then drop (nat (int (length ?kept) - ?m)) ?kept else ?kept)"
      by (auto simp: cleanup_cases Let_def split: if_splits)
    have "length (results fs') < length (results fs)"
    proof (cases "?m < int (length ?kept)")
      case over: True
      from a have "0 \<le> ?m" by (auto simp: cleanup_cases Let_def split: if_splits)
      moreover from r over have "length (results fs') =
          length ?kept - nat (int (length ?kept) - ?m)" by simp
      ultimately show ?thesis using over le by linarith
    next
      case under: False
      with True have "int (length ?kept) < int (length (results fs))" by simp
      moreover from under r have "length (results fs') = length ?kept" by simp
      ultimately show ?thesis by linarith
    qed
    with a show ?thesis by simp
  next
    case False
    from a have "cleanupOldResults now fs = Inr fs'" by (rule conjunct1)
    with False show ?thesis by (auto simp: cleanup_cases Let_def split: if_splits)
  qed
next
  assume b: "(\<forall>r \<in> set (results fs). Sub now (CreatedAt r) < ResultTTL (config fs))
        \<and> int (length (results fs)) \<le> MaxResultsInMemory (config fs)"
  then have k: "filter (\<lambda>r. Sub now (CreatedAt r) < ResultTTL (config fs)) (results fs) = results fs"
    by simp
  have "0 \<le> int (length (results fs))" by simp
  with b have m: "\<not> MaxResultsInMemory (config fs) < 0"
    and n: "\<not> MaxResultsInMemory (config fs) < int (length (results fs))" by linarith+
  show "cleanupOldResults now fs = Inr fs"
    by (simp add: cleanup_cases Let_def k m n)
  then show "\<forall>fs'. cleanupOldResults now fs = Inr fs' \<longrightarrow>
                 results fs' = results fs \<and> cleanupStats fs' = cleanupStats fs"
    by simp
qed

theorem cleanup_nothing_removed_witness:
  "Sub 130 (CreatedAt (pendingResult 90 ''c'')) < ResultTTL (config exampleSwept)
   \<and> Sub 130 (CreatedAt (pendingResult 110 ''d'')) < ResultTTL (config exampleSwept)
   \<and> int (length (results exampleSwept)) \<le> MaxResultsInMemory (config exampleSwept)
   \<and> cleanupOldResults 130 exampleSwept = Inr exampleSwept"
proof -
  have a: "Sub 130 (CreatedAt (pendingResult 90 ''c'')) < ResultTTL (config exampleSwept)"
    and b: "Sub 130 (CreatedAt (pendingResult 110 ''d'')) < ResultTTL (config exampleSwept)"
    by (simp_all add: exampleSwept_config exampleConfig_def pendingResult_def example_ages)
  have c: "int (length (results exampleSwept)) \<le> MaxResultsInMemory (config exampleSwept)"
    by (simp add: exampleSwept_results exampleSwept_config exampleConfig_def)
  from a b have "\<forall>r \<in> set (results exampleSwept).
      Sub 130 (CreatedAt r) < ResultTTL (config exampleSwept)"
    unfolding exampleSwept_results by simp
  with cleanup_nothing_removed [of 130 exampleSwept exampleSwept] c
  have "cleanupOldResults 130 exampleSwept = Inr exampleSwept" by blast
  with a b c show ?thesis by blast
qed

section \<open>updateResult out of range\<close>

text \<open>
  C9. For an index below zero or not below the number of stored entries,
  \<^verbatim>\<open>updateResult\<close> returns the store as it was: no entry changes and the length stays.
\<close>

theorem updateResult_out_of_range:
  assumes "index < 0 \<or> int (length (results fs)) \<le> index"
  shows "updateResult index result fs = fs
    \<and> results (updateResult index result fs) = results fs
    \<and> length (results (updateResult index result fs)) = length (results fs)"
  using assms by (auto simp: updateResult_def)

theorem updateResult_out_of_range_witness:
  "int (length (results exampleStore)) \<le> 3
   \<and> updateResult 3 (zeroResult\<lparr>Status := ''failed''\<rparr>) exampleStore = exampleStore
   \<and> updateResult (- 1) (zeroResult\<lparr>Status := ''failed''\<rparr>) exampleStore = exampleStore"
proof -
  have h: "(3::int) < 0 \<or> int (length (results exampleStore)) \<le> 3"
    by (simp add: exampleStore_results)
  have h': "(- 1::int) < 0 \<or> int (length (results exampleStore)) \<le> - 1" by simp
  from updateResult_out_of_range [OF h] updateResult_out_of_range [OF h'] show ?thesis
    by (simp add: exampleStore_results)
qed

end
